theory Spec2Isabelle
  imports Main "HOL-Library.Char_ord" "HOL-Library.List_Lexorder" "HOL-Library.Sublist"
begin

section \<open>JavaScript values used by the permission engine\<close>

text \<open>
  A JavaScript string is a \<open>string\<close>. A property that holds either a string or
  \<open>null\<close>/\<open>undefined\<close> is a \<open>string option\<close>. A plain object used as a hash map
  is an association list in insertion order with unique keys (\<open>Object.keys\<close> lists the
  keys in insertion order); the properties every object inherits from
  \<open>Object.prototype\<close> and the numeric-key ordering of \<open>Object.keys\<close> are not modelled.
  An object used as a set (\<open>obj[k] = true\<close>) is the list of its keys.
\<close>

datatype error = Error string | TypeError string

type_synonym 'v obj = "(string \<times> 'v) list"

fun obj_set :: "'k \<Rightarrow> 'v \<Rightarrow> ('k \<times> 'v) list \<Rightarrow> ('k \<times> 'v) list" where
  "obj_set k v [] = [(k, v)]"
| "obj_set k v (p # ps) = (if fst p = k then (k, v) # ps else p # obj_set k v ps)"

definition obj_delete :: "'k \<Rightarrow> ('k \<times> 'v) list \<Rightarrow> ('k \<times> 'v) list" where
  "obj_delete k ps = filter (\<lambda>p. fst p \<noteq> k) ps"

definition obj_keys :: "('k \<times> 'v) list \<Rightarrow> 'k list" where
  "obj_keys ps = map fst ps"

text \<open>\<open>set_add k s\<close> is \<open>s[k] = true\<close>, \<open>set_del k s\<close> is \<open>delete s[k]\<close>.\<close>

definition set_add :: "string \<Rightarrow> string list \<Rightarrow> string list" where
  "set_add k s = (if k \<in> set s then s else s @ [k])"

definition set_del :: "string \<Rightarrow> string list \<Rightarrow> string list" where
  "set_del k s = filter (\<lambda>x. x \<noteq> k) s"

text \<open>Truthiness of a string-or-null value: \<open>null\<close>, \<open>undefined\<close> and \<open>''\<close> are falsy.\<close>

definition truthy :: "string option \<Rightarrow> bool" where
  "truthy v = (case v of None \<Rightarrow> False | Some s \<Rightarrow> s \<noteq> [])"

text \<open>\<open>a || b\<close> on string-or-null values.\<close>

definition or_else :: "string option \<Rightarrow> string option \<Rightarrow> string option" where
  "or_else a b = (if truthy a then a else b)"

text \<open>String coercion of a value that may be \<open>null\<close> (agent, group) or
  \<open>undefined\<close> (resourceUrl), as done by \<open>+\<close> and by property access.\<close>

definition null_str :: "string option \<Rightarrow> string" where
  "null_str v = (case v of None \<Rightarrow> ''null'' | Some s \<Rightarrow> s)"

definition undef_str :: "string option \<Rightarrow> string" where
  "undef_str v = (case v of None \<Rightarrow> ''undefined'' | Some s \<Rightarrow> s)"

definition startsWith :: "string \<Rightarrow> string \<Rightarrow> bool" where
  "startsWith s p = prefix p s"

definition endsWith :: "string \<Rightarrow> string \<Rightarrow> bool" where
  "endsWith s p = suffix p s"

text \<open>\<open>toUpperCase\<close> on the ASCII letters (characters are bytes here).\<close>

definition upper_char :: "char \<Rightarrow> char" where
  "upper_char c =
    (case map_of (zip ''abcdefghijklmnopqrstuvwxyz'' ''ABCDEFGHIJKLMNOPQRSTUVWXYZ'') c of
       Some u \<Rightarrow> u | None \<Rightarrow> c)"

definition toUpperCase :: "string \<Rightarrow> string" where
  "toUpperCase s = map upper_char s"

section \<open>modes.js: the ACL constants\<close>

text \<open>The values are the URIs that the \<open>solid-namespace\<close> vocabulary returns for
  \<open>acl:Read\<close>, \<open>acl:Write\<close>, \<open>acl:Append\<close>, \<open>acl:Control\<close> and \<open>foaf:Agent\<close>.\<close>

definition READ :: string where "READ = ''http://www.w3.org/ns/auth/acl#Read''"
definition WRITE :: string where "WRITE = ''http://www.w3.org/ns/auth/acl#Write''"
definition APPEND :: string where "APPEND = ''http://www.w3.org/ns/auth/acl#Append''"
definition CONTROL :: string where "CONTROL = ''http://www.w3.org/ns/auth/acl#Control''"
definition EVERYONE :: string where "EVERYONE = ''http://xmlns.com/foaf/0.1/Agent''"

definition ALL_MODES :: "string list" where
  "ALL_MODES = [READ, WRITE, CONTROL]"

datatype access_type = ACCESS_TO | DEFAULT

definition access_type_str :: "access_type \<Rightarrow> string" where
  "access_type_str t = (case t of ACCESS_TO \<Rightarrow> ''accessTo'' | DEFAULT \<Rightarrow> ''default'')"

text \<open>\<open>acl[key]\<close> for the exported table, as the property key that the value becomes
  when it is used to index \<open>accessModes\<close>; \<open>None\<close> where the entry is missing or falsy
  (\<open>NOT_INHERIT\<close> is \<open>false\<close>). The array \<open>ALL_MODES\<close> is coerced by joining with commas,
  \<open>INHERIT\<close> is \<open>true\<close>.\<close>

definition acl_lookup :: "string \<Rightarrow> string option" where
  "acl_lookup k =
    (if k = ''ALL_MODES'' then Some (READ @ '','' @ WRITE @ '','' @ CONTROL)
     else if k = ''READ'' then Some READ
     else if k = ''WRITE'' then Some WRITE
     else if k = ''APPEND'' then Some APPEND
     else if k = ''CONTROL'' then Some CONTROL
     else if k = ''EVERYONE'' then Some EVERYONE
     else if k = ''INHERIT'' then Some ''true''
     else if k = ''ACCESS_TO'' then Some ''accessTo''
     else if k = ''DEFAULT'' then Some ''default''
     else None)"

section \<open>permission.js: a single Permission\<close>

record Permission =
  accessModes :: "string list"
  accessType :: access_type
  agent :: "string option"
  group :: "string option"
  inherited :: bool
  mailTo :: "string list"
  originsAllowed :: "string list"
  resourceUrl :: "string option"
  virtual :: bool

text \<open>\<open>new Permission(resourceUrl, inherited = false)\<close>.\<close>

definition new_Permission :: "string option \<Rightarrow> bool \<Rightarrow> Permission" where
  "new_Permission url inh =
    \<lparr> accessModes = [],
      accessType = (if inh then DEFAULT else ACCESS_TO),
      agent = None,
      group = None,
      inherited = inh,
      mailTo = [],
      originsAllowed = [],
      resourceUrl = url,
      virtual = False \<rparr>"

text \<open>\<open>addMailTo\<close>: a \<open>mailto:\<close> address keeps the part between the first and the
  second colon (\<open>agent.split(':')[1]\<close>); the list is kept sorted.\<close>

definition addMailTo :: "Permission \<Rightarrow> string \<Rightarrow> Permission" where
  "addMailTo p a =
    (let a' = (if startsWith a ''mailto:''
               then takeWhile (\<lambda>c. c \<noteq> CHR '':'') (drop 7 a) else a)
     in p\<lparr>mailTo := sort (mailTo p @ [a'])\<rparr>)"

definition addModeSingle :: "Permission \<Rightarrow> string \<Rightarrow> Permission" where
  "addModeSingle p m = p\<lparr>accessModes := set_add m (accessModes p)\<rparr>"

text \<open>\<open>addMode\<close> takes one mode or an array of modes; a single mode is the
  one-element list.\<close>

definition addMode :: "Permission \<Rightarrow> string list \<Rightarrow> Permission" where
  "addMode p ms = foldl addModeSingle p ms"

definition addOriginSingle :: "Permission \<Rightarrow> string \<Rightarrow> Permission" where
  "addOriginSingle p origin = p\<lparr>originsAllowed := set_add origin (originsAllowed p)\<rparr>"

definition addOrigin :: "Permission \<Rightarrow> string list \<Rightarrow> Permission" where
  "addOrigin p os = foldl addOriginSingle p os"

definition allowsRead :: "Permission \<Rightarrow> bool" where
  "allowsRead p = (READ \<in> set (accessModes p))"

definition allowsWrite :: "Permission \<Rightarrow> bool" where
  "allowsWrite p = (WRITE \<in> set (accessModes p))"

definition allowsAppend :: "Permission \<Rightarrow> bool" where
  "allowsAppend p = (APPEND \<in> set (accessModes p) \<or> WRITE \<in> set (accessModes p))"

definition allowsControl :: "Permission \<Rightarrow> bool" where
  "allowsControl p = (CONTROL \<in> set (accessModes p))"

definition allowsMode :: "Permission \<Rightarrow> string \<Rightarrow> bool" where
  "allowsMode p accessMode =
    (let m = (case acl_lookup (toUpperCase accessMode) of
                Some v \<Rightarrow> v | None \<Rightarrow> accessMode)
     in if m = APPEND then allowsAppend p else m \<in> set (accessModes p))"

definition allowsOrigin :: "Permission \<Rightarrow> string \<Rightarrow> bool" where
  "allowsOrigin p origin = (origin \<in> set (originsAllowed p))"

text \<open>\<open>clone\<close> copies every field through JSON; the copy is a new object, which the
  store below allocates.\<close>

definition clone :: "Permission \<Rightarrow> Permission" where
  "clone p = p"

definition webId :: "Permission \<Rightarrow> string option" where
  "webId p = or_else (agent p) (group p)"

definition hashFragmentFor :: "string option \<Rightarrow> string option \<Rightarrow> access_type \<Rightarrow> string" where
  "hashFragmentFor w url authType =
     null_str w @ ''-'' @ undef_str url @ ''-'' @ access_type_str authType"

text \<open>\<open>hashFragment\<close>: the source tests \<open>!this.webId || !this.resourceUrl\<close>. The
  first operand is the method \<open>webId\<close> itself, not its result; a function value is
  truthy, so that operand is the constant \<open>webId_method_truthy\<close>.\<close>

definition webId_method_truthy :: bool where
  "webId_method_truthy = True"

definition hashFragment :: "Permission \<Rightarrow> error + string" where
  "hashFragment p =
    (if \<not> webId_method_truthy \<or> \<not> truthy (resourceUrl p)
     then Inl (Error ''Cannot call hashFragment() on an incomplete permission'')
     else Inr (hashFragmentFor (webId p) (resourceUrl p) (accessType p)))"

definition isAgent :: "Permission \<Rightarrow> bool" where
  "isAgent p = truthy (agent p)"

definition isEmpty :: "Permission \<Rightarrow> bool" where
  "isEmpty p = (length (accessModes p) = 0)"

definition isPublic :: "Permission \<Rightarrow> bool" where
  "isPublic p = (group p = Some EVERYONE)"

definition isGroup :: "Permission \<Rightarrow> bool" where
  "isGroup p = truthy (group p)"

definition isValid :: "Permission \<Rightarrow> bool" where
  "isValid p = (truthy (webId p) \<and> truthy (resourceUrl p) \<and> \<not> isEmpty p)"

definition mergeWith :: "Permission \<Rightarrow> Permission \<Rightarrow> error + Permission" where
  "mergeWith p auth =
    (case hashFragment p of
       Inl e \<Rightarrow> Inl e
     | Inr h \<Rightarrow>
        (case hashFragment auth of
           Inl e \<Rightarrow> Inl e
         | Inr h' \<Rightarrow>
            if h \<noteq> h'
            then Inl (Error ''Cannot merge permissions with different agent id or resource url (accessTo)'')
            else Inr (foldl (\<lambda>q accessMode. addMode q [accessMode]) p (accessModes auth))))"

definition removeModeSingle :: "Permission \<Rightarrow> string \<Rightarrow> Permission" where
  "removeModeSingle p m = p\<lparr>accessModes := set_del m (accessModes p)\<rparr>"

definition removeMode :: "Permission \<Rightarrow> string list \<Rightarrow> Permission" where
  "removeMode p ms = foldl removeModeSingle p ms"

definition removeOriginSingle :: "Permission \<Rightarrow> string \<Rightarrow> Permission" where
  "removeOriginSingle p origin = p\<lparr>originsAllowed := set_del origin (originsAllowed p)\<rparr>"

definition removeOrigin :: "Permission \<Rightarrow> string list \<Rightarrow> Permission" where
  "removeOrigin p os = foldl removeOriginSingle p os"

text \<open>\<open>setGroup\<close>, \<open>setPublic\<close>, \<open>setAgent\<close> on a string identifier (an RDF statement
  or a GroupListing argument is first reduced to its string).\<close>

definition setGroup :: "Permission \<Rightarrow> string \<Rightarrow> error + Permission" where
  "setGroup p g =
    (if truthy (agent p)
     then Inl (Error ''Cannot set group, permission already has an agent set'')
     else Inr (p\<lparr>group := Some g\<rparr>))"

definition setPublic :: "Permission \<Rightarrow> error + Permission" where
  "setPublic p = setGroup p EVERYONE"

definition setAgent :: "Permission \<Rightarrow> string \<Rightarrow> error + Permission" where
  "setAgent p a =
    (case (if a = EVERYONE then setPublic p
           else if truthy (group p)
           then Inl (Error ''Cannot set agent, permission already has a group set'')
           else Inr p) of
       Inl e \<Rightarrow> Inl e
     | Inr p1 \<Rightarrow>
         if startsWith a ''mailto:'' then Inr (addMailTo p1 a)
         else Inr (p1\<lparr>agent := Some a\<rparr>))"

section \<open>group-listing.js: the member roster of a group\<close>

text \<open>A parsed RDF graph is its list of (subject, predicate, object) triples. A promise
  is the value it settles to: \<open>Inl\<close> a rejection, \<open>Inr\<close> the resolved value.\<close>

type_synonym graph = "(string \<times> string \<times> string) list"

type_synonym 'a promise = "error + 'a"

definition promise_then :: "'a promise \<Rightarrow> ('a \<Rightarrow> error + 'b) \<Rightarrow> 'b promise" where
  "promise_then p f = (case p of Inl e \<Rightarrow> Inl e | Inr v \<Rightarrow> f v)"

definition promise_catch :: "'a promise \<Rightarrow> (error \<Rightarrow> 'a) \<Rightarrow> 'a promise" where
  "promise_catch p h = (case p of Inl e \<Rightarrow> Inr (h e) | Inr v \<Rightarrow> Inr v)"

fun promise_all :: "'a promise list \<Rightarrow> 'a list promise" where
  "promise_all [] = Inr []"
| "promise_all (p # ps) =
     (case p of Inl e \<Rightarrow> Inl e
      | Inr v \<Rightarrow> (case promise_all ps of Inl e \<Rightarrow> Inl e | Inr vs \<Rightarrow> Inr (v # vs)))"

definition VCARD_hasMember :: string where
  "VCARD_hasMember = ''http://www.w3.org/2006/vcard/ns#hasMember''"

definition VCARD_hasUID :: string where
  "VCARD_hasUID = ''http://www.w3.org/2006/vcard/ns#hasUID''"

record GroupListing =
  uri :: "string option"
  uid :: "string option"
  members :: "string list"
  listing :: "string option"
  gl_rdf :: bool

text \<open>\<open>new GroupListing({ uri, rdf })\<close>, the only form the loader uses.\<close>

definition new_GroupListing :: "string option \<Rightarrow> bool \<Rightarrow> GroupListing" where
  "new_GroupListing u r = \<lparr> uri = u, uid = None, members = [], listing = None, gl_rdf = r \<rparr>"

definition addMember :: "GroupListing \<Rightarrow> string \<Rightarrow> GroupListing" where
  "addMember g w = g\<lparr>members := set_add w (members g)\<rparr>"

definition hasMember :: "GroupListing \<Rightarrow> string \<Rightarrow> bool" where
  "hasMember g w = (w \<in> set (members g))"

definition graph_match :: "graph \<Rightarrow> string \<Rightarrow> string \<Rightarrow> graph" where
  "graph_match gr s p = filter (\<lambda>t. fst t = s \<and> fst (snd t) = p) gr"

definition graph_anyValue :: "graph \<Rightarrow> string \<Rightarrow> string \<Rightarrow> string option" where
  "graph_anyValue gr s p =
     (case graph_match gr s p of [] \<Rightarrow> None | t # _ \<Rightarrow> Some (snd (snd t)))"

text \<open>\<open>initFromGraph(uri, graph, rdf)\<close>: the missing-type warning has no effect.\<close>

definition initFromGraph ::
  "GroupListing \<Rightarrow> string option \<Rightarrow> graph option \<Rightarrow> bool \<Rightarrow> error + GroupListing" where
  "initFromGraph this u gr r =
    (if \<not> truthy u then Inl (Error ''Group URI required to init from graph'')
     else case gr of
       None \<Rightarrow> Inl (Error ''initFromGraph() - graph or rdf library missing'')
     | Some g \<Rightarrow>
         if \<not> r then Inl (Error ''initFromGraph() - graph or rdf library missing'')
         else Inr (foldl (\<lambda>this memberMatch. addMember this (snd (snd memberMatch)))
                     (this\<lparr>uid := graph_anyValue g (undef_str u) VCARD_hasUID\<rparr>)
                     (graph_match g (undef_str u) VCARD_hasMember)))"

text \<open>What a call of the injected \<open>fetchGraph\<close> does: it raises an exception, or it
  returns a value that has no \<open>then\<close> method, or it returns a promise of a parsed graph
  (or of nothing).\<close>

datatype fetched = Throws error | NonThenable | Thenable "graph option promise"

text \<open>\<open>GroupListing.loadFrom\<close>: \<open>fetchGraph(uri, options)\<close> is evaluated before the
  promise chain exists, so an exception of that call, and a result without \<open>then\<close>, make
  \<open>loadFrom\<close> itself raise (\<open>Inl\<close>). Otherwise \<open>loadFrom\<close> returns a promise (\<open>Inr\<close>): any
  rejection of the fetched promise, and any error thrown while reading the graph, is
  caught and becomes \<open>null\<close>.\<close>

definition loadFrom ::
  "string \<Rightarrow> (string \<Rightarrow> fetched) \<Rightarrow> bool \<Rightarrow> error + GroupListing option promise" where
  "loadFrom u fetchGraph r =
    (let group = new_GroupListing (Some u) r
     in case fetchGraph u of
          Throws e \<Rightarrow> Inl e
        | NonThenable \<Rightarrow> Inl (TypeError ''fetchGraph(...).then is not a function'')
        | Thenable p \<Rightarrow>
            Inr (promise_catch
                   (promise_then p
                      (\<lambda>graph. case initFromGraph group (Some u) graph (gl_rdf group) of
                                  Inl e \<Rightarrow> Inl e | Inr g \<Rightarrow> Inr (Some g)))
                   (\<lambda>err. None)))"

section \<open>permission-set.js: the indexed set of Permissions\<close>

text \<open>
  The set holds references to Permission objects: the same object is stored in the
  \<open>authorizations\<close> collection and in the indexes, and is mutated in place. The
  objects live in a store (\<open>heap\<close>, a list addressed by position); the collection and the
  indexes hold addresses. The indexes have the shape
  \<open>webId \<rightarrow> accessType \<rightarrow> resourceUrl \<rightarrow> Permission\<close>.
\<close>

type_synonym index = "(string \<times> (access_type \<times> (string \<times> nat) list) list) list"

datatype resource_type = RESOURCE | CONTAINER

datatype index_type = AGENT_INDEX | GROUP_INDEX

datatype 'a one_or_many = One 'a | Many "'a list"

definition to_list :: "'a one_or_many \<Rightarrow> 'a list" where
  "to_list x = (case x of One a \<Rightarrow> [a] | Many as \<Rightarrow> as)"

text \<open>Truthiness of a string-or-array argument: only the empty string is falsy.\<close>

definition arg_truthy :: "string one_or_many \<Rightarrow> bool" where
  "arg_truthy x = (case x of One a \<Rightarrow> a \<noteq> [] | Many as \<Rightarrow> True)"

record PermissionSet =
  heap :: "Permission list"
  authorizations :: "nat obj"
  aclUrl :: "string option"
  host :: "string option"
  authsBy_agents :: index
  authsBy_groups :: index
  groups :: "GroupListing obj"
  rdf :: bool
  resourceType :: resource_type
  ps_resourceUrl :: "string option"
  strictOrigin :: bool
  origin :: "string option"
  aclUrlFor :: "string \<Rightarrow> string"

record ps_options =
  opt_rdf :: bool
  opt_strictOrigin :: bool
  opt_host :: "string option"
  opt_origin :: "string option"
  opt_aclUrlFor :: "(string \<Rightarrow> string) option"

definition DEFAULT_ACL_SUFFIX :: string where
  "DEFAULT_ACL_SUFFIX = ''.acl''"

definition defaultIsAcl :: "string \<Rightarrow> bool" where
  "defaultIsAcl u = endsWith u DEFAULT_ACL_SUFFIX"

definition defaultAclUrlFor :: "string \<Rightarrow> string" where
  "defaultAclUrlFor resourceUri =
     (if defaultIsAcl resourceUri then resourceUri else resourceUri @ DEFAULT_ACL_SUFFIX)"

definition no_options :: ps_options where
  "no_options = \<lparr> opt_rdf = False, opt_strictOrigin = False, opt_host = None,
                  opt_origin = None, opt_aclUrlFor = None \<rparr>"

text \<open>The constructor, without the optional initialisation from a parsed graph.\<close>

definition new_PermissionSet ::
  "string option \<Rightarrow> string option \<Rightarrow> bool \<Rightarrow> ps_options \<Rightarrow> PermissionSet" where
  "new_PermissionSet resourceUrl' aclUrl' isContainer options =
    \<lparr> heap = [],
      authorizations = [],
      aclUrl = aclUrl',
      host = opt_host options,
      authsBy_agents = [],
      authsBy_groups = [],
      groups = [],
      rdf = opt_rdf options,
      resourceType = (if isContainer then CONTAINER else RESOURCE),
      ps_resourceUrl = resourceUrl',
      strictOrigin = opt_strictOrigin options,
      origin = opt_origin options,
      aclUrlFor = (case opt_aclUrlFor options of Some f \<Rightarrow> f | None \<Rightarrow> defaultAclUrlFor) \<rparr>"

definition index_get :: "index \<Rightarrow> string \<Rightarrow> access_type \<Rightarrow> string \<Rightarrow> nat option" where
  "index_get idx w t u =
    (case map_of idx w of
       None \<Rightarrow> None
     | Some byType \<Rightarrow> (case map_of byType t of None \<Rightarrow> None | Some byUrl \<Rightarrow> map_of byUrl u))"

text \<open>\<open>idx[w][t][u] = a\<close>, creating the two inner objects where they are missing.\<close>

definition index_put :: "index \<Rightarrow> string \<Rightarrow> access_type \<Rightarrow> string \<Rightarrow> nat \<Rightarrow> index" where
  "index_put idx w t u a =
    (let byType = (case map_of idx w of None \<Rightarrow> [] | Some bt \<Rightarrow> bt);
         byUrl = (case map_of byType t of None \<Rightarrow> [] | Some bu \<Rightarrow> bu)
     in obj_set w (obj_set t (obj_set u a byUrl) byType) idx)"

text \<open>\<open>target.mergeWith(auth)\<close> on two objects of the store.\<close>

definition mergeWith_ref :: "Permission list \<Rightarrow> nat \<Rightarrow> nat \<Rightarrow> error + Permission list" where
  "mergeWith_ref h target a =
    (case mergeWith (h ! target) (h ! a) of
       Inl e \<Rightarrow> Inl e
     | Inr p \<Rightarrow> Inr (h[target := p]))"

text \<open>\<open>addToAgentIndex\<close> and \<open>addToGroupIndex\<close>: the entry is set when it is missing
  (the inner objects being created on the way), otherwise the stored object is merged
  with the incoming one.\<close>

definition addToAgentIndex :: "PermissionSet \<Rightarrow> nat \<Rightarrow> error + PermissionSet" where
  "addToAgentIndex ps a =
    (let authorization = heap ps ! a;
         w = null_str (webId authorization);
         t = accessType authorization;
         u = undef_str (resourceUrl authorization);
         agents = authsBy_agents ps
     in case index_get agents w t u of
          None \<Rightarrow> Inr (ps\<lparr>authsBy_agents := index_put agents w t u a\<rparr>)
        | Some e \<Rightarrow>
            (case mergeWith_ref (heap ps) e a of
               Inl er \<Rightarrow> Inl er
             | Inr h \<Rightarrow> Inr (ps\<lparr>heap := h\<rparr>)))"

definition addToGroupIndex :: "PermissionSet \<Rightarrow> nat \<Rightarrow> error + PermissionSet" where
  "addToGroupIndex ps a =
    (let authorization = heap ps ! a;
         w = null_str (webId authorization);
         t = accessType authorization;
         u = undef_str (resourceUrl authorization);
         groups' = authsBy_groups ps
     in case index_get groups' w t u of
          None \<Rightarrow> Inr (ps\<lparr>authsBy_groups := index_put groups' w t u a\<rparr>)
        | Some e \<Rightarrow>
            (case mergeWith_ref (heap ps) e a of
               Inl er \<Rightarrow> Inl er
             | Inr h \<Rightarrow> Inr (ps\<lparr>heap := h\<rparr>)))"

text \<open>The first step of \<open>addAuthorization\<close>: merge into the stored Permission with the
  same hash fragment, or store the incoming object.\<close>

definition store_authorization :: "PermissionSet \<Rightarrow> string \<Rightarrow> nat \<Rightarrow> error + PermissionSet" where
  "store_authorization ps hashFragment' a =
    (case map_of (authorizations ps) hashFragment' of
       Some b \<Rightarrow>
         (case mergeWith_ref (heap ps) b a of
            Inl e \<Rightarrow> Inl e
          | Inr h \<Rightarrow> Inr (ps\<lparr>heap := h\<rparr>))
     | None \<Rightarrow> Inr (ps\<lparr>authorizations := obj_set hashFragment' a (authorizations ps)\<rparr>))"

text \<open>The clone that \<open>addControlPermissionsFor\<close> builds for the ACL resource.\<close>

definition impliedAuth :: "PermissionSet \<Rightarrow> Permission \<Rightarrow> Permission" where
  "impliedAuth ps auth =
     addMode ((clone auth)\<lparr>resourceUrl := Some (aclUrlFor ps (undef_str (resourceUrl auth))),
                           virtual := True\<rparr>) ALL_MODES"

text \<open>Merging changes the access modes only; this is what makes the mutual recursion
  of \<open>addAuthorization\<close> and \<open>addControlPermissionsFor\<close> stop after one round: the clone
  is virtual, and a virtual Permission implies no further one.\<close>

lemma addMode_single: "addMode p [m] = p\<lparr>accessModes := set_add m (accessModes p)\<rparr>"
  by (simp add: addMode_def addModeSingle_def)

lemma addMode_modes:
  "addMode p ms = p\<lparr>accessModes := foldl (\<lambda>s m. set_add m s) (accessModes p) ms\<rparr>"
  unfolding addMode_def
  by (induction ms arbitrary: p) (simp_all add: addModeSingle_def)

lemma merge_fold_modes:
  "foldl (\<lambda>q m. addMode q [m]) p ms =
     p\<lparr>accessModes := foldl (\<lambda>s m. set_add m s) (accessModes p) ms\<rparr>"
  by (induction ms arbitrary: p) (simp_all add: addMode_single)

lemma mergeWith_result:
  "mergeWith p q = Inr p' \<Longrightarrow>
     p' = p\<lparr>accessModes := foldl (\<lambda>s m. set_add m s) (accessModes p) (accessModes q)\<rparr>"
  by (auto simp: mergeWith_def merge_fold_modes split: sum.splits if_splits)

lemma mergeWith_ref_virtual:
  assumes "mergeWith_ref h b a = Inr h'"
  shows "virtual (h' ! i) = virtual (h ! i)"
proof -
  from assms obtain p where p: "mergeWith (h ! b) (h ! a) = Inr p" and h': "h' = h[b := p]"
    by (auto simp: mergeWith_ref_def split: sum.splits)
  have "virtual p = virtual (h ! b)"
    using mergeWith_result [OF p] by (cases p) simp
  then show ?thesis
    unfolding h' by (cases "b < length h") (auto simp: nth_list_update list_update_beyond)
qed

lemma store_authorization_virtual:
  "store_authorization ps k a = Inr ps1 \<Longrightarrow> virtual (heap ps1 ! i) = virtual (heap ps ! i)"
  by (auto simp: store_authorization_def mergeWith_ref_virtual split: option.splits sum.splits)

lemma impliedAuth_virtual: "virtual (impliedAuth ps p)"
  by (simp add: impliedAuth_def addMode_modes)

text \<open>\<open>addAuthorization(auth)\<close> for an object \<open>a\<close> of the store, and
  \<open>addControlPermissionsFor(auth)\<close>, which allocates the clone and adds it. An
  exception ends the call with \<open>Inl\<close>.\<close>

function addAuthorization :: "PermissionSet \<Rightarrow> nat \<Rightarrow> error + PermissionSet"
  and addControlPermissionsFor :: "PermissionSet \<Rightarrow> nat \<Rightarrow> error + PermissionSet" where
  "addAuthorization ps a =
    (case hashFragment (heap ps ! a) of
       Inl e \<Rightarrow> Inl e
     | Inr hashFragment' \<Rightarrow>
        (case store_authorization ps hashFragment' a of
           Inl e \<Rightarrow> Inl e
         | Inr ps1 \<Rightarrow>
            (case (if \<not> virtual (heap ps1 ! a) \<and> allowsControl (heap ps1 ! a)
                   then addControlPermissionsFor ps1 a else Inr ps1) of
               Inl e \<Rightarrow> Inl e
             | Inr ps2 \<Rightarrow>
                (case addToAgentIndex ps2 a of
                   Inl e \<Rightarrow> Inl e
                 | Inr ps3 \<Rightarrow>
                     if isPublic (heap ps3 ! a) \<or> isGroup (heap ps3 ! a)
                     then addToGroupIndex ps3 a else Inr ps3))))"
| "addControlPermissionsFor ps a =
    addAuthorization (ps\<lparr>heap := heap ps @ [impliedAuth ps (heap ps ! a)]\<rparr>) (length (heap ps))"
  by pat_completeness auto
termination
proof (relation "measure (\<lambda>x. case x of
          Inl (ps, a) \<Rightarrow> (if virtual (heap ps ! a) then 0 else 2)
        | Inr (ps, a) \<Rightarrow> (1::nat))", goal_cases)
  case 1
  show ?case by simp
next
  case (2 ps a h ps1)
  then show ?case
    using store_authorization_virtual [of ps h a ps1 a] by simp
next
  case (3 ps a)
  show ?case by (simp add: impliedAuth_virtual)
qed

declare addAuthorization.simps [simp del] addControlPermissionsFor.simps [simp del]

text \<open>Adding a freshly built Permission: the object is allocated, then added.\<close>

definition add_new :: "PermissionSet \<Rightarrow> Permission \<Rightarrow> error + PermissionSet" where
  "add_new ps auth = addAuthorization (ps\<lparr>heap := heap ps @ [auth]\<rparr>) (length (heap ps))"

definition isAuthInherited :: "PermissionSet \<Rightarrow> bool" where
  "isAuthInherited ps = (resourceType ps = CONTAINER)"

definition addGroupPermission ::
  "PermissionSet \<Rightarrow> string \<Rightarrow> string one_or_many \<Rightarrow> error + PermissionSet" where
  "addGroupPermission ps webId' accessMode =
    (if \<not> truthy (ps_resourceUrl ps)
     then Inl (Error ''Cannot add a permission to a PermissionSet with no resourceUrl'')
     else case setGroup (new_Permission (ps_resourceUrl ps) (isAuthInherited ps)) webId' of
       Inl e \<Rightarrow> Inl e
     | Inr auth \<Rightarrow> add_new ps (addMode auth (to_list accessMode)))"

definition addPermission ::
  "PermissionSet \<Rightarrow> string \<Rightarrow> string one_or_many \<Rightarrow> string one_or_many option
     \<Rightarrow> error + PermissionSet" where
  "addPermission ps webId' accessMode origin' =
    (if webId' = [] then Inl (Error ''addPermission() requires a valid webId'')
     else if \<not> arg_truthy accessMode
     then Inl (Error ''addPermission() requires a valid accessMode'')
     else if \<not> truthy (ps_resourceUrl ps)
     then Inl (Error ''Cannot add a permission to a PermissionSet with no resourceUrl'')
     else case setAgent (new_Permission (ps_resourceUrl ps) (isAuthInherited ps)) webId' of
       Inl e \<Rightarrow> Inl e
     | Inr auth \<Rightarrow>
         (let auth1 = addMode auth (to_list accessMode);
              auth2 = (case origin' of
                         None \<Rightarrow> auth1
                       | Some og \<Rightarrow> if arg_truthy og then addOrigin auth1 (to_list og) else auth1)
          in add_new ps auth2))"

text \<open>\<open>permissionFor(webId, resourceUrl)\<close>: the hash fragment is computed with the
  default type \<open>accessTo\<close>.\<close>

definition permissionFor :: "PermissionSet \<Rightarrow> string \<Rightarrow> string option \<Rightarrow> nat option" where
  "permissionFor ps webId' resourceUrl' =
    (if webId' = [] then None
     else map_of (authorizations ps)
            (hashFragmentFor (Some webId') (or_else resourceUrl' (ps_resourceUrl ps)) ACCESS_TO))"

definition removeAuthorization :: "PermissionSet \<Rightarrow> nat \<Rightarrow> error + PermissionSet" where
  "removeAuthorization ps a =
    (case hashFragment (heap ps ! a) of
       Inl e \<Rightarrow> Inl e
     | Inr hashFragment' \<Rightarrow>
         Inr (ps\<lparr>authorizations := obj_delete hashFragment' (authorizations ps)\<rparr>))"

definition removePermission ::
  "PermissionSet \<Rightarrow> string \<Rightarrow> string one_or_many \<Rightarrow> error + PermissionSet" where
  "removePermission ps webId' accessMode =
    (case permissionFor ps webId' (ps_resourceUrl ps) of
       None \<Rightarrow> Inr ps
     | Some a \<Rightarrow>
         (let ps1 = ps\<lparr>heap := (heap ps)[a := removeMode (heap ps ! a) (to_list accessMode)]\<rparr>
          in if isEmpty (heap ps1 ! a) then removeAuthorization ps1 a else Inr ps1))"

text \<open>The loop of \<open>findAuthByAgent\<close> over the container URLs: the first container that
  the resource URL starts with. On an undefined resource URL \<open>startsWith\<close> raises.\<close>

fun first_container :: "(string \<times> nat) list \<Rightarrow> string option \<Rightarrow> string list \<Rightarrow> error + nat option" where
  "first_container defaultAuths resourceUrl' [] = Inr None"
| "first_container defaultAuths resourceUrl' (containerUrl # rest) =
    (case resourceUrl' of
       None \<Rightarrow> Inl (TypeError ''Cannot read properties of undefined (reading startsWith)'')
     | Some r \<Rightarrow>
         if startsWith r containerUrl then Inr (map_of defaultAuths containerUrl)
         else first_container defaultAuths resourceUrl' rest)"

definition ps_index :: "PermissionSet \<Rightarrow> index_type \<Rightarrow> index" where
  "ps_index ps indexType =
     (case indexType of AGENT_INDEX \<Rightarrow> authsBy_agents ps | GROUP_INDEX \<Rightarrow> authsBy_groups ps)"

definition findAuthByAgent ::
  "PermissionSet \<Rightarrow> string \<Rightarrow> string option \<Rightarrow> index_type \<Rightarrow> error + nat option" where
  "findAuthByAgent ps webId' resourceUrl' indexType =
    (case map_of (ps_index ps indexType) webId' of
       None \<Rightarrow> Inr None
     | Some byType \<Rightarrow>
        (case (case map_of byType ACCESS_TO of
                 None \<Rightarrow> None
               | Some accessToAuths \<Rightarrow> map_of accessToAuths (undef_str resourceUrl')) of
           Some accessToMatch \<Rightarrow> Inr (Some accessToMatch)
         | None \<Rightarrow>
            (case map_of byType DEFAULT of
               None \<Rightarrow> Inr None
             | Some defaultAuths \<Rightarrow>
                (case map_of defaultAuths (undef_str resourceUrl') of
                   Some defaultMatch \<Rightarrow> Inr (Some defaultMatch)
                 | None \<Rightarrow>
                     first_container defaultAuths resourceUrl'
                       (rev (sort (obj_keys defaultAuths)))))))"

definition findPublicAuth :: "PermissionSet \<Rightarrow> string option \<Rightarrow> error + nat option" where
  "findPublicAuth ps resourceUrl' = findAuthByAgent ps EVERYONE resourceUrl' GROUP_INDEX"

definition allowsPublic :: "PermissionSet \<Rightarrow> string \<Rightarrow> string option \<Rightarrow> error + bool" where
  "allowsPublic ps mode resourceUrl' =
    (case findPublicAuth ps (or_else resourceUrl' (ps_resourceUrl ps)) of
       Inl e \<Rightarrow> Inl e
     | Inr None \<Rightarrow> Inr False
     | Inr (Some publicAuth) \<Rightarrow> Inr (allowsMode (heap ps ! publicAuth) mode))"

definition checkOrigin :: "PermissionSet \<Rightarrow> Permission \<Rightarrow> bool" where
  "checkOrigin ps authorization =
    (if \<not> strictOrigin ps \<or> \<not> truthy (origin ps) \<or> origin ps = host ps then True
     else allowsOrigin authorization (undef_str (origin ps)))"

definition checkAccessForAgent ::
  "PermissionSet \<Rightarrow> string option \<Rightarrow> string \<Rightarrow> string \<Rightarrow> error + bool" where
  "checkAccessForAgent ps resourceUrl' agentId accessMode =
    (case findAuthByAgent ps agentId resourceUrl' AGENT_INDEX of
       Inl e \<Rightarrow> Inl e
     | Inr None \<Rightarrow> Inr False
     | Inr (Some auth) \<Rightarrow>
         Inr (checkOrigin ps (heap ps ! auth) \<and> allowsMode (heap ps ! auth) accessMode))"

definition groupsForMember :: "PermissionSet \<Rightarrow> string \<Rightarrow> string list" where
  "groupsForMember ps agentId =
    filter (\<lambda>groupWebId. case map_of (groups ps) groupWebId of
                           None \<Rightarrow> False
                         | Some g \<Rightarrow> hasMember g agentId)
      (obj_keys (groups ps))"

definition groupUris :: "PermissionSet \<Rightarrow> bool \<Rightarrow> string list" where
  "groupUris ps excludePublic =
    (let uris = obj_keys (authsBy_groups ps)
     in if excludePublic then filter (\<lambda>u. u \<noteq> EVERYONE) uris else uris)"

definition hasGroups :: "PermissionSet \<Rightarrow> bool" where
  "hasGroups ps = (length (groupUris ps True) > 0)"

record check_options =
  fetchGraph :: "(string \<Rightarrow> fetched) option"
  co_rdf :: bool

text \<open>\<open>uris.map(callback)\<close> with a callback that may raise: the first exception ends
  the call.\<close>

fun array_map :: "('a \<Rightarrow> error + 'b) \<Rightarrow> 'a list \<Rightarrow> error + 'b list" where
  "array_map f [] = Inr []"
| "array_map f (x # xs) =
     (case f x of Inl e \<Rightarrow> Inl e
      | Inr v \<Rightarrow> (case array_map f xs of Inl e \<Rightarrow> Inl e | Inr vs \<Rightarrow> Inr (v # vs)))"

text \<open>\<open>loadGroups\<close>: every group URI of the index is loaded; each listing that was
  loaded is stored in the cache under its URI. The result is the promise's outcome (or
  the exception raised while the load actions are started) and the set as the call
  leaves it.\<close>

definition store_group :: "GroupListing obj \<Rightarrow> GroupListing option \<Rightarrow> GroupListing obj" where
  "store_group cache group' =
    (case group' of None \<Rightarrow> cache | Some g \<Rightarrow> obj_set (undef_str (uri g)) g cache)"

definition loadGroups :: "PermissionSet \<Rightarrow> check_options \<Rightarrow> (error + unit) \<times> PermissionSet" where
  "loadGroups ps options =
    (case fetchGraph options of
       None \<Rightarrow> (Inl (Error ''Cannot load groups, fetchGraph() not supplied''), ps)
     | Some fetch \<Rightarrow>
        (let rdf' = (co_rdf options \<or> rdf ps)
         in if \<not> rdf'
            then (Inl (Error ''Cannot load groups, rdf library not supplied''), ps)
            else
              (case array_map (\<lambda>u. loadFrom u fetch rdf') (groupUris ps True) of
                 Inl e \<Rightarrow> (Inl e, ps)
               | Inr loadActions \<Rightarrow>
                  (case promise_all loadActions of
                     Inl e \<Rightarrow> (Inl e, ps)
                   | Inr loaded \<Rightarrow>
                       (Inr (), ps\<lparr>groups := foldl store_group (groups ps) loaded\<rparr>)))))"

text \<open>\<open>checkGroupAccess\<close>: the callback given to \<open>find\<close> returns nothing, so every
  group of the agent is visited.\<close>

fun group_loop ::
  "PermissionSet \<Rightarrow> string option \<Rightarrow> string \<Rightarrow> bool \<Rightarrow> string list \<Rightarrow> error + bool" where
  "group_loop ps resourceUrl' accessMode result [] = Inr result"
| "group_loop ps resourceUrl' accessMode result (groupWebId # rest) =
    (case checkAccessForAgent ps resourceUrl' groupWebId accessMode of
       Inl e \<Rightarrow> Inl e
     | Inr granted \<Rightarrow>
         group_loop ps resourceUrl' accessMode (if granted then True else result) rest)"

definition checkGroupAccess ::
  "PermissionSet \<Rightarrow> string option \<Rightarrow> string \<Rightarrow> string \<Rightarrow> error + bool" where
  "checkGroupAccess ps resourceUrl' agentId accessMode =
     group_loop ps resourceUrl' accessMode False (groupsForMember ps agentId)"

text \<open>\<open>checkAccess\<close>: the outcome of the returned promise (or the exception raised
  before a promise exists), and the set as the call leaves it.\<close>

definition checkAccess ::
  "PermissionSet \<Rightarrow> string \<Rightarrow> string \<Rightarrow> string \<Rightarrow> check_options
     \<Rightarrow> (error + bool) \<times> PermissionSet" where
  "checkAccess ps resourceUrl' agentId accessMode options =
    (case allowsPublic ps accessMode (Some resourceUrl') of
       Inl e \<Rightarrow> (Inl e, ps)
     | Inr True \<Rightarrow> (Inr True, ps)
     | Inr False \<Rightarrow>
        (case checkAccessForAgent ps (Some resourceUrl') agentId accessMode of
           Inl e \<Rightarrow> (Inl e, ps)
         | Inr True \<Rightarrow> (Inr True, ps)
         | Inr False \<Rightarrow>
            if hasGroups ps then
              (case loadGroups ps options of
                 (Inl e, ps') \<Rightarrow> (Inl e, ps')
               | (Inr _, ps') \<Rightarrow>
                   (checkGroupAccess ps' (Some resourceUrl') agentId accessMode, ps'))
            else (Inr False, ps)))"

section \<open>Properties of a single Permission\<close>

lemmas mode_defs = READ_def WRITE_def APPEND_def CONTROL_def EVERYONE_def

lemma set_set_add: "set (set_add k s) = insert k (set s)"
  by (auto simp: set_add_def)

lemma set_set_del: "set (set_del k s) = set s - {k}"
  by (auto simp: set_del_def)

lemma set_del_absent: "k \<notin> set s \<Longrightarrow> set_del k s = s"
  by (auto simp: set_del_def filter_id_conv)

lemma removeMode_single: "removeMode p [m] = p\<lparr>accessModes := set_del m (accessModes p)\<rparr>"
  by (simp add: removeMode_def removeModeSingle_def)

lemma set_fold_set_add: "set (foldl (\<lambda>s m. set_add m s) s ms) = set s \<union> set ms"
  by (induction ms arbitrary: s) (auto simp: set_set_add)

lemma fold_set_add_absorb: "set ms \<subseteq> set s \<Longrightarrow> foldl (\<lambda>s m. set_add m s) s ms = s"
  by (induction ms arbitrary: s) (auto simp: set_add_def)

lemma hashFragment_modes [simp]: "hashFragment (p\<lparr>accessModes := ms\<rparr>) = hashFragment p"
  by (simp add: hashFragment_def webId_def)

lemma mergeWith_same_key:
  assumes "hashFragment P = Inr k" "hashFragment Q = Inr k"
  shows "mergeWith P Q =
    Inr (P\<lparr>accessModes := foldl (\<lambda>s m. set_add m s) (accessModes P) (accessModes Q)\<rparr>)"
  using assms by (simp add: mergeWith_def merge_fold_modes)

text \<open>Two Permissions of the unit tests: one for the agent Bob on \<open>/docs/file1\<close>, one
  for a group.\<close>

definition perm_bob :: Permission where
  "perm_bob = new_Permission (Some ''https://bob.example.com/docs/file1'') False
      \<lparr>agent := Some ''https://bob.example.com/profile/card#me''\<rparr>"

definition perm_devteam :: Permission where
  "perm_devteam = new_Permission None False
      \<lparr>group := Some ''https://devteam.example.com/something''\<rparr>"

text \<open>
  Claim C5. Write implies Append, and not the other way round. After \<open>addMode(WRITE)\<close>
  the Permission allows Append, whatever it held before. \<open>addMode(APPEND)\<close> leaves
  \<open>allowsWrite\<close> as it was, so Append alone never grants Write. Removing Write from a
  Permission that does not hold Write changes nothing, and a Permission holding Append
  still allows Append afterwards. Removing Append from a Permission that holds Write
  leaves both \<open>allowsWrite\<close> and \<open>allowsAppend\<close> true.
\<close>

theorem write_implies_append:
  "allowsAppend (addMode p [WRITE])
   \<and> allowsWrite (addMode p [APPEND]) = allowsWrite p
   \<and> (WRITE \<notin> set (accessModes q) \<longrightarrow> removeMode q [WRITE] = q)
   \<and> (APPEND \<in> set (accessModes q) \<longrightarrow> allowsAppend (removeMode q [WRITE]))
   \<and> (allowsWrite r \<longrightarrow>
        allowsWrite (removeMode r [APPEND]) \<and> allowsAppend (removeMode r [APPEND]))"
  by (auto simp: allowsAppend_def allowsWrite_def addMode_single removeMode_single
      set_set_add set_set_del set_del_absent mode_defs)

theorem write_implies_append_witness:
  "WRITE \<notin> set (accessModes (addMode (new_Permission None False) [APPEND]))
   \<and> APPEND \<in> set (accessModes (addMode (new_Permission None False) [APPEND]))
   \<and> removeMode (addMode (new_Permission None False) [APPEND]) [WRITE]
        = addMode (new_Permission None False) [APPEND]
   \<and> allowsAppend (removeMode (addMode (new_Permission None False) [APPEND]) [WRITE])
   \<and> \<not> allowsWrite (addMode (new_Permission None False) [APPEND])
   \<and> allowsWrite (addMode (new_Permission None False) [WRITE])
   \<and> allowsWrite (removeMode (addMode (new_Permission None False) [WRITE]) [APPEND])
   \<and> allowsAppend (removeMode (addMode (new_Permission None False) [WRITE]) [APPEND])"
proof -
  have a: "WRITE \<notin> set (accessModes (addMode (new_Permission None False) [APPEND]))"
      "APPEND \<in> set (accessModes (addMode (new_Permission None False) [APPEND]))"
    by (simp_all add: addMode_single new_Permission_def set_add_def mode_defs)
  have b: "allowsWrite (addMode (new_Permission None False) [WRITE])"
     "\<not> allowsWrite (new_Permission None False)"
    by (simp_all add: allowsWrite_def addMode_single new_Permission_def set_add_def)
  from write_implies_append [of "new_Permission None False"
      "addMode (new_Permission None False) [APPEND]"
      "addMode (new_Permission None False) [WRITE]"] a b
  show ?thesis by metis
qed

text \<open>
  Claim C6. For Permissions \<open>P\<close> and \<open>Q\<close> with the same identity key (both hash
  fragments are computed and are equal), \<open>P.mergeWith(Q)\<close> succeeds and leaves \<open>P\<close> with
  the union of the two mode sets; merging \<open>Q\<close> a second time changes nothing; agent,
  group, resourceUrl, inheritance flag and access type of \<open>P\<close> are untouched.
\<close>

theorem mergeWith_union_idempotent:
  assumes "hashFragment P = Inr k" and "hashFragment Q = Inr k"
  shows "\<exists>P'. mergeWith P Q = Inr P'
           \<and> set (accessModes P') = set (accessModes P) \<union> set (accessModes Q)
           \<and> mergeWith P' Q = Inr P'
           \<and> agent P' = agent P \<and> group P' = group P \<and> webId P' = webId P
           \<and> resourceUrl P' = resourceUrl P \<and> inherited P' = inherited P
           \<and> accessType P' = accessType P"
proof -
  let ?P' = "P\<lparr>accessModes := foldl (\<lambda>s m. set_add m s) (accessModes P) (accessModes Q)\<rparr>"
  have m: "mergeWith P Q = Inr ?P'"
    using assms by (rule mergeWith_same_key)
  have k': "hashFragment ?P' = Inr k"
    using assms(1) by simp
  have sub: "set (accessModes Q) \<subseteq> set (accessModes ?P')"
    by (simp add: set_fold_set_add)
  have again: "mergeWith ?P' Q = Inr ?P'"
    using mergeWith_same_key [OF k' assms(2)] fold_set_add_absorb [OF sub] by simp
  show ?thesis
    using m again by (simp add: set_fold_set_add webId_def)
qed

theorem mergeWith_union_idempotent_witness:
  "hashFragment (addMode perm_bob [READ]) =
      Inr ''https://bob.example.com/profile/card#me-https://bob.example.com/docs/file1-accessTo''
   \<and> hashFragment (addMode perm_bob [WRITE]) =
      Inr ''https://bob.example.com/profile/card#me-https://bob.example.com/docs/file1-accessTo''
   \<and> (\<exists>P'. mergeWith (addMode perm_bob [READ]) (addMode perm_bob [WRITE]) = Inr P'
        \<and> set (accessModes P') = {READ, WRITE}
        \<and> mergeWith P' (addMode perm_bob [WRITE]) = Inr P')"
proof -
  have h1: "hashFragment (addMode perm_bob [READ]) =
      Inr ''https://bob.example.com/profile/card#me-https://bob.example.com/docs/file1-accessTo''"
    by (simp add: hashFragment_def hashFragmentFor_def perm_bob_def new_Permission_def
        addMode_single webId_def or_else_def truthy_def null_str_def undef_str_def
        access_type_str_def webId_method_truthy_def)
  have h2: "hashFragment (addMode perm_bob [WRITE]) =
      Inr ''https://bob.example.com/profile/card#me-https://bob.example.com/docs/file1-accessTo''"
    by (simp add: hashFragment_def hashFragmentFor_def perm_bob_def new_Permission_def
        addMode_single webId_def or_else_def truthy_def null_str_def undef_str_def
        access_type_str_def webId_method_truthy_def)
  have m: "set (accessModes (addMode perm_bob [READ]))
             \<union> set (accessModes (addMode perm_bob [WRITE])) = {READ, WRITE}"
    by (auto simp: perm_bob_def new_Permission_def addMode_single set_add_def)
  from mergeWith_union_idempotent [OF h1 h2] m h1 h2 show ?thesis
    by auto
qed

text \<open>
  Claim C8, as stated, fails for the reserved identifier: \<open>setAgent(EVERYONE)\<close> goes
  through \<open>setPublic\<close>, that is \<open>setGroup(EVERYONE)\<close>, which only refuses when an agent is
  set. On a Permission whose group is already set (and whose agent is not) the call
  raises nothing and the group is replaced.
\<close>

theorem setAgent_everyone_counterexample:
  "setGroup (new_Permission None False) ''https://devteam.example.com/something''
      = Inr perm_devteam
   \<and> truthy (group perm_devteam)
   \<and> \<not> isl (setAgent perm_devteam EVERYONE)
   \<and> group (projr (setAgent perm_devteam EVERYONE)) = Some EVERYONE"
  by (simp add: setGroup_def setAgent_def setPublic_def perm_devteam_def new_Permission_def
      truthy_def startsWith_def EVERYONE_def)

text \<open>
  Claim C8, amended. For every identifier other than the reserved \<open>everyone\<close>
  identifier, \<open>setAgent\<close> on a Permission whose group is set raises. For every
  identifier, \<open>setGroup\<close> on a Permission whose agent is set raises, and so does
  \<open>setAgent(EVERYONE)\<close> there. \<open>setAgent(EVERYONE)\<close> on a Permission without an agent
  raises nothing and makes the Permission public, as \<open>setPublic\<close> does, whether or not a
  group was set before.
\<close>

theorem principal_kinds_exclusive:
  "(truthy (group p) \<and> a \<noteq> EVERYONE \<longrightarrow>
      setAgent p a = Inl (Error ''Cannot set agent, permission already has a group set''))
   \<and> (truthy (agent q) \<longrightarrow>
      setGroup q g = Inl (Error ''Cannot set group, permission already has an agent set'')
      \<and> setAgent q EVERYONE
           = Inl (Error ''Cannot set group, permission already has an agent set''))
   \<and> (\<not> truthy (agent r) \<longrightarrow>
      (\<exists>r'. setAgent r EVERYONE = Inr r' \<and> isPublic r'
            \<and> setPublic r = Inr (r'\<lparr>agent := agent r\<rparr>)))"
  by (auto simp: setAgent_def setGroup_def setPublic_def isPublic_def startsWith_def
      EVERYONE_def)

theorem principal_kinds_exclusive_witness:
  "truthy (group perm_devteam) \<and> ''https://bob.example.com/profile/card#me'' \<noteq> EVERYONE
   \<and> isl (setAgent perm_devteam ''https://bob.example.com/profile/card#me'')
   \<and> truthy (agent perm_bob) \<and> isl (setGroup perm_bob ''https://devteam.example.com/something'')
   \<and> isl (setAgent perm_bob EVERYONE)
   \<and> \<not> truthy (agent perm_devteam) \<and> \<not> isl (setAgent perm_devteam EVERYONE)"
proof -
  have a: "truthy (group perm_devteam)" "\<not> truthy (agent perm_devteam)"
    by (simp_all add: perm_devteam_def new_Permission_def truthy_def)
  have b: "truthy (agent perm_bob)"
    by (simp add: perm_bob_def new_Permission_def truthy_def)
  have c: "''https://bob.example.com/profile/card#me'' \<noteq> EVERYONE"
    by (simp add: EVERYONE_def)
  from principal_kinds_exclusive [of perm_devteam "''https://bob.example.com/profile/card#me''"
      perm_bob "''https://devteam.example.com/something''" perm_devteam] a b c
  show ?thesis by auto
qed

text \<open>
  Claim C9 against the code: a Permission that has a resourceUrl and no principal. Its
  \<open>webId()\<close> is \<open>null\<close>, yet \<open>hashFragment()\<close> raises nothing and returns a key built
  from the string \<open>null\<close>. A Permission without a resourceUrl does raise.
\<close>

theorem hashFragment_without_principal:
  "webId (new_Permission (Some ''https://bob.example.com/docs/file1'') False) = None
   \<and> hashFragment (new_Permission (Some ''https://bob.example.com/docs/file1'') False)
       = Inr ''null-https://bob.example.com/docs/file1-accessTo''
   \<and> isl (hashFragment (new_Permission None False))"
  by (simp add: hashFragment_def hashFragmentFor_def new_Permission_def
        webId_def or_else_def truthy_def null_str_def undef_str_def access_type_str_def
        webId_method_truthy_def)

theorem hashFragment_without_principal_witness:
  "\<not> isl (hashFragment (new_Permission (Some ''https://bob.example.com/docs/file1'') False))"
  using hashFragment_without_principal by simp

section \<open>The applicability rule of \<open>findAuthByAgent\<close>\<close>

text \<open>The rule in the words of the specification, for one principal id \<open>w\<close> of an index
  and a queried resource \<open>r\<close>: first a Direct entry at exactly \<open>r\<close>; if there is none, the
  Inherited entry with the longest URL among those whose URL is a prefix of \<open>r\<close>, which is
  the greatest of them in lexicographic order; nothing if there is no such entry.\<close>

definition applicable_spec :: "index \<Rightarrow> string \<Rightarrow> string \<Rightarrow> nat option \<Rightarrow> bool" where
  "applicable_spec idx w r res =
    (case index_get idx w ACCESS_TO r of
       Some a \<Rightarrow> res = Some a
     | None \<Rightarrow>
        (case res of
           None \<Rightarrow> \<forall>c a. index_get idx w DEFAULT c = Some a \<longrightarrow> \<not> prefix c r
         | Some a \<Rightarrow>
             \<exists>c. index_get idx w DEFAULT c = Some a \<and> prefix c r \<and>
               (\<forall>c' a'. index_get idx w DEFAULT c' = Some a' \<and> prefix c' r
                   \<longrightarrow> length c' \<le> length c \<and> c' \<le> c)))"

lemma prefix_le: "prefix (a::string) b \<Longrightarrow> a \<le> b"
proof (induction a arbitrary: b)
  case Nil
  then show ?case by simp
next
  case (Cons x a)
  then show ?case by (cases b) auto
qed

lemma prefixes_le_length:
  assumes "prefix (c'::string) r" "prefix c r" "c' \<le> c"
  shows "length c' \<le> length c"
proof -
  from assms(1,2) consider "prefix c' c" | "prefix c c'"
    using prefix_same_cases by blast
  then show ?thesis
  proof cases
    case 1
    then show ?thesis by (rule prefix_length_le)
  next
    case 2
    then have "c \<le> c'" by (rule prefix_le)
    with assms(3) have "c = c'" by simp
    then show ?thesis by simp
  qed
qed

lemma first_container_find:
  "first_container d (Some r) cs =
     Inr (case find (\<lambda>c. prefix c r) cs of None \<Rightarrow> None | Some c \<Rightarrow> map_of d c)"
  by (induction cs) (simp_all add: startsWith_def)

lemma find_sorted_desc:
  assumes "sorted (rev cs)" "find P cs = Some c" "c' \<in> set cs" "P c'"
  shows "c' \<le> (c::string)"
  using assms
proof (induction cs)
  case Nil
  then show ?case by simp
next
  case (Cons x cs)
  show ?case
  proof (cases "P x")
    case True
    with Cons.prems have "c = x" by simp
    with Cons.prems show ?thesis by (auto simp: sorted_append)
  next
    case False
    with Cons.prems show ?thesis
      by (auto simp: sorted_append intro: Cons.IH)
  qed
qed

lemma find_Some_set: "find P cs = Some c \<Longrightarrow> c \<in> set cs \<and> P c"
  by (induction cs) (auto split: if_splits)

lemma find_None_set: "find P cs = None \<Longrightarrow> c \<in> set cs \<Longrightarrow> \<not> P c"
  by (induction cs) (auto split: if_splits)

lemma map_of_keys: "map_of d c = Some a \<Longrightarrow> c \<in> set (obj_keys d)"
  by (auto simp: obj_keys_def dest: map_of_SomeD intro: rev_image_eqI)

lemma keys_map_of: "c \<in> set (obj_keys d) \<Longrightarrow> \<exists>a. map_of d c = Some a"
  by (metis obj_keys_def map_of_eq_None_iff not_Some_eq set_map)

lemma inherited_match:
  assumes "first_container d (Some r) (rev (sort (obj_keys d))) = Inr res"
  shows "case res of
           None \<Rightarrow> \<forall>c a. map_of d c = Some a \<longrightarrow> \<not> prefix c r
         | Some a \<Rightarrow> \<exists>c. map_of d c = Some a \<and> prefix c r \<and>
               (\<forall>c' a'. map_of d c' = Some a' \<and> prefix c' r
                   \<longrightarrow> length c' \<le> length c \<and> c' \<le> c)"
proof (cases "find (\<lambda>c. prefix c r) (rev (sort (obj_keys d)))")
  case None
  from assms have res: "res = None"
    unfolding first_container_find None by simp
  have "\<not> prefix c r" if "map_of d c = Some a" for c a
  proof -
    have "c \<in> set (rev (sort (obj_keys d)))"
      using map_of_keys [OF that] by simp
    from find_None_set [OF None this] show ?thesis .
  qed
  then show ?thesis unfolding res by simp
next
  case (Some c)
  from find_Some_set [OF Some] have c: "c \<in> set (obj_keys d)" "prefix c r" by simp_all
  from keys_map_of [OF c(1)] obtain a where a: "map_of d c = Some a" ..
  from assms have res: "res = Some a"
    unfolding first_container_find Some by (simp add: a)
  have srt: "sorted (rev (rev (sort (obj_keys d))))" by simp
  have best: "length c' \<le> length c \<and> c' \<le> c" if m: "map_of d c' = Some a'" and p: "prefix c' r" for c' a'
  proof -
    have "c' \<in> set (rev (sort (obj_keys d)))" using map_of_keys [OF m] by simp
    from find_sorted_desc [OF srt Some this p] have le: "c' \<le> c" .
    from prefixes_le_length [OF p c(2) le] le show ?thesis by simp
  qed
  have "\<exists>c. map_of d c = Some a \<and> prefix c r \<and>
               (\<forall>c' a'. map_of d c' = Some a' \<and> prefix c' r
                   \<longrightarrow> length c' \<le> length c \<and> c' \<le> c)"
    using a c(2) best by blast
  then show ?thesis unfolding res by simp
qed


lemma undef_str_Some [simp]: "undef_str (Some s) = s"
  by (simp add: undef_str_def)

lemma findAuthByAgent_Some:
  "findAuthByAgent ps w (Some r) it =
    (case map_of (ps_index ps it) w of
       None \<Rightarrow> Inr None
     | Some byType \<Rightarrow>
        (case index_get (ps_index ps it) w ACCESS_TO r of
           Some a \<Rightarrow> Inr (Some a)
         | None \<Rightarrow>
            (case map_of byType DEFAULT of
               None \<Rightarrow> Inr None
             | Some d \<Rightarrow>
                (case map_of d r of
                   Some a \<Rightarrow> Inr (Some a)
                 | None \<Rightarrow> first_container d (Some r) (rev (sort (obj_keys d)))))))"
  by (simp add: findAuthByAgent_def index_get_def split: option.split)

lemma findAuthByAgent_defined:
  "\<exists>res. findAuthByAgent ps w (Some r) it = Inr res"
  by (simp add: findAuthByAgent_Some first_container_find split: option.split)

lemma findAuthByAgent_no_index:
  "map_of (ps_index ps it) w = None \<Longrightarrow> findAuthByAgent ps w u it = Inr None"
  by (simp add: findAuthByAgent_def)

lemma findAuthByAgent_direct:
  assumes "index_get (ps_index ps it) w ACCESS_TO r = Some a"
  shows "findAuthByAgent ps w (Some r) it = Inr (Some a)"
proof -
  from assms obtain byType where "map_of (ps_index ps it) w = Some byType"
    by (auto simp: index_get_def split: option.splits)
  with assms show ?thesis by (simp add: findAuthByAgent_Some)
qed

lemma findAuthByAgent_no_default:
  "map_of (ps_index ps it) w = Some byType \<Longrightarrow> map_of byType DEFAULT = None \<Longrightarrow>
   index_get (ps_index ps it) w ACCESS_TO r = None \<Longrightarrow>
     findAuthByAgent ps w (Some r) it = Inr None"
  by (simp add: findAuthByAgent_Some)

lemma findAuthByAgent_default_exact:
  "map_of (ps_index ps it) w = Some byType \<Longrightarrow> map_of byType DEFAULT = Some d \<Longrightarrow>
   index_get (ps_index ps it) w ACCESS_TO r = None \<Longrightarrow> map_of d r = Some a \<Longrightarrow>
     findAuthByAgent ps w (Some r) it = Inr (Some a)"
  by (simp add: findAuthByAgent_Some)

lemma findAuthByAgent_default_loop:
  "map_of (ps_index ps it) w = Some byType \<Longrightarrow> map_of byType DEFAULT = Some d \<Longrightarrow>
   index_get (ps_index ps it) w ACCESS_TO r = None \<Longrightarrow> map_of d r = None \<Longrightarrow>
     findAuthByAgent ps w (Some r) it = first_container d (Some r) (rev (sort (obj_keys d)))"
  by (simp add: findAuthByAgent_Some)

lemma findAuthByAgent_meets_spec:
  "\<exists>res. findAuthByAgent ps w (Some r) it = Inr res
       \<and> applicable_spec (ps_index ps it) w r res"
proof -
  obtain res where res: "findAuthByAgent ps w (Some r) it = Inr res"
    using findAuthByAgent_defined by blast
  have "applicable_spec (ps_index ps it) w r res"
  proof (cases "index_get (ps_index ps it) w ACCESS_TO r")
    case (Some a)
    have "res = Some a"
      using res findAuthByAgent_direct [OF Some] by simp
    then show ?thesis
      unfolding applicable_spec_def Some by simp
  next
    case None
    show ?thesis
    proof (cases "map_of (ps_index ps it) w")
      case n: None
      have r: "res = None"
        using res findAuthByAgent_no_index [OF n, of "Some r"] by simp
      have "index_get (ps_index ps it) w DEFAULT c = None" for c
        using n by (simp add: index_get_def)
      then show ?thesis
        unfolding applicable_spec_def None r by simp
    next
      case (Some byType)
      note bt = this
      show ?thesis
      proof (cases "map_of byType DEFAULT")
        case n: None
        have r: "res = None"
          using res findAuthByAgent_no_default [OF bt n None] by simp
        have "index_get (ps_index ps it) w DEFAULT c = None" for c
          using bt n by (simp add: index_get_def)
        then show ?thesis
          unfolding applicable_spec_def None r by simp
      next
        case (Some d)
        have dget: "index_get (ps_index ps it) w DEFAULT c = map_of d c" for c
          using bt Some by (simp add: index_get_def)
        show ?thesis
        proof (cases "map_of d r")
          case s: (Some a)
          have ra: "res = Some a"
            using res findAuthByAgent_default_exact [OF bt Some None s] by simp
          have "length c' \<le> length r \<and> c' \<le> r" if "prefix c' r" for c'
            using that prefix_le prefix_length_le by blast
          then have "\<exists>c. map_of d c = Some a \<and> prefix c r \<and>
               (\<forall>c' a'. map_of d c' = Some a' \<and> prefix c' r
                   \<longrightarrow> length c' \<le> length c \<and> c' \<le> c)"
            using s by (intro exI [of _ r]) simp
          then show ?thesis
            unfolding applicable_spec_def None ra by (simp add: dget)
        next
          case n: None
          have "first_container d (Some r) (rev (sort (obj_keys d))) = Inr res"
            using res findAuthByAgent_default_loop [OF bt Some None n] by simp
          from inherited_match [OF this] show ?thesis
            unfolding applicable_spec_def None by (cases res) (simp_all add: dget)
        qed
      qed
    qed
  qed
  with res show ?thesis by blast
qed

text \<open>
  Claim C1. For every PermissionSet, index, principal id and queried resource URL,
  \<open>findAuthByAgent\<close> returns a result (it raises nothing on a defined resource URL), and
  the result follows the applicability rule \<open>applicable_spec\<close>: a Direct (\<open>accessTo\<close>)
  entry indexed under exactly the queried URL is returned when there is one; otherwise
  the result is an Inherited (\<open>default\<close>) entry whose URL is a prefix of the queried URL
  and is the longest such URL, which is also the greatest of the candidates in
  lexicographic order (the first one met in reverse order); and nothing is returned
  only when no Inherited entry has a URL that is a prefix of the queried one. Index
  entries are keyed by the resourceUrl the Permission had when \<open>addToAgentIndex\<close> or
  \<open>addToGroupIndex\<close> stored it.
\<close>

theorem findAuthByAgent_applicable:
  "\<exists>res. findAuthByAgent ps w (Some r) it = Inr res
       \<and> applicable_spec (ps_index ps it) w r res"
  by (rule findAuthByAgent_meets_spec)


text \<open>Unfolding sets for evaluating the operations on concrete sets.\<close>

lemmas eval_defs =
  addPermission_def addGroupPermission_def new_PermissionSet_def no_options_def
  arg_truthy_def truthy_def setAgent_def setGroup_def setPublic_def startsWith_def
  new_Permission_def isAuthInherited_def addMode_modes addOrigin_def addOriginSingle_def
  to_list_def add_new_def addAuthorization.simps addControlPermissionsFor.simps
  hashFragment_def webId_method_truthy_def hashFragmentFor_def webId_def or_else_def
  null_str_def undef_str_def access_type_str_def store_authorization_def set_add_def set_del_def
  allowsControl_def addToAgentIndex_def addToGroupIndex_def index_get_def index_put_def
  isPublic_def isGroup_def impliedAuth_def clone_def ALL_MODES_def defaultAclUrlFor_def
  defaultIsAcl_def endsWith_def DEFAULT_ACL_SUFFIX_def mergeWith_ref_def mergeWith_def
  merge_fold_modes permissionFor_def removePermission_def removeAuthorization_def
  removeMode_def removeModeSingle_def isEmpty_def obj_delete_def suffix_to_prefix Let_def
  READ_def WRITE_def APPEND_def CONTROL_def EVERYONE_def

lemmas check_defs =
  checkAccess_def allowsPublic_def findPublicAuth_def findAuthByAgent_def ps_index_def
  checkAccessForAgent_def checkOrigin_def allowsOrigin_def allowsMode_def allowsAppend_def
  toUpperCase_def upper_char_def acl_lookup_def obj_keys_def hasGroups_def groupUris_def
  or_else_def truthy_def undef_str_def startsWith_def
  READ_def WRITE_def APPEND_def CONTROL_def EVERYONE_def

text \<open>The container example: \<open>/docs/\<close> carries an inherited Read grant for Alice.\<close>

definition alice :: string where "alice = ''https://alice.example.com/#me''"
definition bob :: string where "bob = ''https://bob.example.com/#me''"
definition docs :: string where "docs = ''https://alice.example.com/docs/''"
definition file1 :: string where "file1 = ''https://alice.example.com/docs/file1''"

definition no_fetch :: check_options where
  "no_fetch = \<lparr> fetchGraph = None, co_rdf = False \<rparr>"

definition ps_docs_read :: PermissionSet where
  "ps_docs_read =
     (new_PermissionSet (Some docs) (Some (docs @ ''.acl'')) True no_options)
       \<lparr> heap := [addMode (new_Permission (Some docs) True \<lparr>agent := Some alice\<rparr>) [READ]],
         authorizations := [(alice @ ''-'' @ docs @ ''-default'', 0)],
         authsBy_agents := [(alice, [(DEFAULT, [(docs, 0)])])] \<rparr>"

lemma ps_docs_read_built:
  "addPermission (new_PermissionSet (Some docs) (Some (docs @ ''.acl'')) True no_options)
      alice (One READ) None = Inr ps_docs_read"
  by (simp add: ps_docs_read_def alice_def docs_def eval_defs)

theorem findAuthByAgent_applicable_witness:
  "findAuthByAgent ps_docs_read alice (Some file1) AGENT_INDEX = Inr (Some 0)
   \<and> applicable_spec (authsBy_agents ps_docs_read) alice file1 (Some 0)
   \<and> findAuthByAgent ps_docs_read bob (Some file1) AGENT_INDEX = Inr None
   \<and> applicable_spec (authsBy_agents ps_docs_read) bob file1 None
   \<and> fst (checkAccess ps_docs_read file1 alice READ no_fetch) = Inr True
   \<and> fst (checkAccess ps_docs_read file1 bob READ no_fetch) = Inr False"
proof -
  have a: "findAuthByAgent ps_docs_read alice (Some file1) AGENT_INDEX = Inr (Some 0)"
    by (simp add: ps_docs_read_def new_PermissionSet_def alice_def docs_def file1_def check_defs)
  have b: "findAuthByAgent ps_docs_read bob (Some file1) AGENT_INDEX = Inr None"
    by (simp add: ps_docs_read_def new_PermissionSet_def alice_def bob_def docs_def file1_def check_defs)
  have c: "fst (checkAccess ps_docs_read file1 alice READ no_fetch) = Inr True"
    by (simp add: ps_docs_read_def new_PermissionSet_def no_options_def new_Permission_def
        addMode_modes set_add_def alice_def docs_def file1_def check_defs)
  have d: "fst (checkAccess ps_docs_read file1 bob READ no_fetch) = Inr False"
    by (simp add: ps_docs_read_def new_PermissionSet_def no_options_def new_Permission_def
        addMode_modes set_add_def alice_def bob_def docs_def file1_def check_defs)
  have i: "ps_index ps_docs_read AGENT_INDEX = authsBy_agents ps_docs_read"
    by (simp add: ps_index_def)
  from findAuthByAgent_applicable [of ps_docs_read alice file1 AGENT_INDEX]
       findAuthByAgent_applicable [of ps_docs_read bob file1 AGENT_INDEX] a b c d i
  show ?thesis by simp
qed

section \<open>Public access\<close>

text \<open>The applicability rule determines its result, so a set in which the rule holds for
  some Permission is a set in which \<open>findAuthByAgent\<close> returns that Permission.\<close>

lemma applicable_spec_unique:
  assumes "applicable_spec idx w r res" "applicable_spec idx w r res'"
  shows "res = res'"
proof (cases "index_get idx w ACCESS_TO r")
  case (Some a)
  with assms show ?thesis by (simp add: applicable_spec_def)
next
  case None
  show ?thesis
  proof (cases res)
    case n: None
    show ?thesis
    proof (cases res')
      case None
      with n show ?thesis by simp
    next
      case (Some y)
      with assms(2) None obtain c where "index_get idx w DEFAULT c = Some y" "prefix c r"
        by (auto simp: applicable_spec_def)
      moreover from assms(1) None n
      have "\<forall>c a. index_get idx w DEFAULT c = Some a \<longrightarrow> \<not> prefix c r"
        by (simp add: applicable_spec_def)
      ultimately show ?thesis by blast
    qed
  next
    case (Some x)
    from assms(1) None Some obtain c where c: "index_get idx w DEFAULT c = Some x" "prefix c r"
      and cmax: "\<forall>c' a'. index_get idx w DEFAULT c' = Some a' \<and> prefix c' r \<longrightarrow> c' \<le> c"
      by (auto simp: applicable_spec_def)
    show ?thesis
    proof (cases res')
      case n: None
      from assms(2) None n
      have "\<forall>c a. index_get idx w DEFAULT c = Some a \<longrightarrow> \<not> prefix c r"
        by (simp add: applicable_spec_def)
      with c show ?thesis by blast
    next
      case s: (Some y)
      from assms(2) None s obtain d where d: "index_get idx w DEFAULT d = Some y" "prefix d r"
        and dmax: "\<forall>c' a'. index_get idx w DEFAULT c' = Some a' \<and> prefix c' r \<longrightarrow> c' \<le> d"
        by (auto simp: applicable_spec_def)
      from cmax d have "d \<le> c" by blast
      moreover from dmax c have "c \<le> d" by blast
      ultimately have "c = d" by simp
      with c d Some s show ?thesis by simp
    qed
  qed
qed

lemma applicable_spec_findAuthByAgent:
  assumes "applicable_spec (ps_index ps it) w r res"
  shows "findAuthByAgent ps w (Some r) it = Inr res"
proof -
  from findAuthByAgent_meets_spec [of ps w r it] obtain res'
    where r: "findAuthByAgent ps w (Some r) it = Inr res'"
      and s: "applicable_spec (ps_index ps it) w r res'" by blast
  from applicable_spec_unique [OF assms s] r show ?thesis by simp
qed


lemma or_else_Some [simp]: "r \<noteq> [] \<Longrightarrow> or_else (Some r) x = Some r"
  by (simp add: or_else_def truthy_def)

lemma ps_index_config [simp]:
  "ps_index (ps\<lparr>strictOrigin := s, origin := og, host := h\<rparr>) it = ps_index ps it"
  by (cases it) (simp_all add: ps_index_def)

lemma findAuthByAgent_config [simp]:
  "findAuthByAgent (ps\<lparr>strictOrigin := s, origin := og, host := h\<rparr>) w u it
     = findAuthByAgent ps w u it"
  by (simp add: findAuthByAgent_def)

lemma allowsPublic_config:
  "allowsPublic (ps\<lparr>strictOrigin := s, origin := og, host := h\<rparr>) mode u = allowsPublic ps mode u"
  by (simp add: allowsPublic_def findPublicAuth_def split: sum.split option.split)

lemma checkAccess_public:
  "allowsPublic ps mode (Some r) = Inr True \<Longrightarrow>
     checkAccess ps r agentId mode options = (Inr True, ps)"
  by (simp add: checkAccess_def)

lemma allowsPublic_from_spec:
  assumes "r \<noteq> []" "applicable_spec (authsBy_groups ps) EVERYONE r (Some a)"
    "allowsMode (heap ps ! a) mode"
  shows "allowsPublic ps mode (Some r) = Inr True"
proof -
  have "applicable_spec (ps_index ps GROUP_INDEX) EVERYONE r (Some a)"
    using assms(2) by (simp add: ps_index_def)
  from applicable_spec_findAuthByAgent [OF this] assms(1,3) show ?thesis
    by (simp add: allowsPublic_def findPublicAuth_def)
qed

text \<open>
  Claim C3. The public check does not look at the origin context: \<open>allowsPublic\<close> gives
  the same answer whatever \<open>strictOrigin\<close>, \<open>origin\<close> and \<open>host\<close> are. When the public
  check of a set allows the requested mode on the queried resource, \<open>checkAccess\<close>
  resolves to true for every agent id, every origin context and every options, and
  leaves the set as it was. The public check allows the mode whenever the Permission
  that the applicability rule selects for the \<open>everyone\<close> principal in the group index
  allows it (for a non-empty queried URL; an empty one stands for the set's own
  resource).
\<close>

theorem public_access_ignores_origin:
  "allowsPublic (ps\<lparr>strictOrigin := s, origin := og, host := h\<rparr>) mode u = allowsPublic ps mode u
   \<and> (allowsPublic ps mode (Some r) = Inr True \<longrightarrow>
        checkAccess (ps\<lparr>strictOrigin := s, origin := og, host := h\<rparr>) r agentId mode options
          = (Inr True, ps\<lparr>strictOrigin := s, origin := og, host := h\<rparr>))
   \<and> (r \<noteq> [] \<and> applicable_spec (authsBy_groups ps) EVERYONE r (Some a)
        \<and> allowsMode (heap ps ! a) mode
        \<longrightarrow> allowsPublic ps mode (Some r) = Inr True)"
  using allowsPublic_config [where ps = ps and s = s and og = og and h = h and mode = mode]
    checkAccess_public [where ps = "ps\<lparr>strictOrigin := s, origin := og, host := h\<rparr>"
       and mode = mode and r = r and agentId = agentId and options = options]
    allowsPublic_from_spec [where r = r and ps = ps and a = a and mode = mode]
  by simp

section \<open>Loading the group listings\<close>

lemma map_of_obj_set: "map_of (obj_set k v ps) k' = (if k' = k then Some v else map_of ps k')"
  by (induction ps) auto

lemma obj_keys_obj_set: "set (obj_keys (obj_set k v ps)) = insert k (set (obj_keys ps))"
  by (induction ps) (auto simp: obj_keys_def)

lemma loadFrom_total: "f u = Thenable p \<Longrightarrow> \<exists>x. loadFrom u f r = Inr (Inr x)"
  by (simp add: loadFrom_def promise_catch_def Let_def split: sum.split)

lemma promise_catch_resolves: "\<exists>x. promise_catch p h = Inr x"
  by (simp add: promise_catch_def split: sum.split)

lemma loadFrom_never_rejects:
  assumes "loadFrom u f r = Inr p"
  shows "\<exists>x. p = Inr x"
proof (cases "f u")
  case (Thenable q)
  with assms obtain c h where "p = promise_catch c h"
    by (auto simp: loadFrom_def Let_def)
  with promise_catch_resolves [of c h] show ?thesis by simp
qed (use assms in \<open>simp_all add: loadFrom_def Let_def\<close>)

lemma loadFrom_raises: "f u = Throws e \<Longrightarrow> loadFrom u f r = Inl e"
  by (simp add: loadFrom_def Let_def)

lemma loadFrom_not_thenable: "f u = NonThenable \<Longrightarrow> \<exists>e. loadFrom u f r = Inl e"
  by (simp add: loadFrom_def Let_def)

lemma loadFrom_rejected: "f u = Thenable (Inl e) \<Longrightarrow> loadFrom u f r = Inr (Inr None)"
  by (simp add: loadFrom_def promise_catch_def promise_then_def Let_def)

lemma loadFrom_no_graph: "f u = Thenable (Inr None) \<Longrightarrow> loadFrom u f r = Inr (Inr None)"
  by (simp add: loadFrom_def promise_catch_def promise_then_def initFromGraph_def Let_def)

lemma addMember_fold_uri:
  "uri (foldl (\<lambda>this memberMatch. addMember this (snd (snd memberMatch))) g xs) = uri g"
  by (induction xs arbitrary: g) (simp_all add: addMember_def)

lemma initFromGraph_uri: "initFromGraph g u gr r = Inr l \<Longrightarrow> uri l = uri g"
  by (auto simp: initFromGraph_def addMember_fold_uri split: if_splits option.splits)

lemma loadFrom_uri:
  assumes "loadFrom u f r = Inr (Inr (Some l))"
  shows "uri l = Some u"
proof -
  from assms obtain gr where "initFromGraph (new_GroupListing (Some u) r) (Some u) gr
        (gl_rdf (new_GroupListing (Some u) r)) = Inr l"
    by (auto simp: loadFrom_def promise_catch_def promise_then_def Let_def
        split: fetched.splits sum.splits)
  from initFromGraph_uri [OF this] show ?thesis by (simp add: new_GroupListing_def)
qed

lemma array_map_Inr:
  "array_map f xs = Inr ys \<Longrightarrow>
     ys = map (\<lambda>x. projr (f x)) xs \<and> (\<forall>x \<in> set xs. \<exists>v. f x = Inr v)"
  by (induction xs arbitrary: ys) (auto split: sum.splits)

lemma array_map_Inl: "array_map f xs = Inl e \<Longrightarrow> \<exists>x \<in> set xs. f x = Inl e"
  by (induction xs) (auto split: sum.splits)

lemma promise_all_resolved:
  "\<forall>p \<in> set ps. \<exists>x. p = Inr x \<Longrightarrow> promise_all ps = Inr (map projr ps)"
  by (induction ps) auto

text \<open>The set after a \<open>loadGroups\<close> call in which every load action was started: the
  listings that were loaded are stored in the cache, in the order of the group URIs.\<close>

definition loaded_state :: "PermissionSet \<Rightarrow> (string \<Rightarrow> fetched) \<Rightarrow> PermissionSet" where
  "loaded_state ps fetch = ps\<lparr>groups := foldl store_group (groups ps)
                    (map (\<lambda>u. projr (projr (loadFrom u fetch True))) (groupUris ps True))\<rparr>"

lemma loadGroups_cases:
  assumes "fetchGraph options = Some fetch" "co_rdf options \<or> rdf ps"
  shows "(\<exists>e. loadGroups ps options = (Inl e, ps)
             \<and> (\<exists>u \<in> set (groupUris ps True). loadFrom u fetch True = Inl e))
       \<or> ((\<forall>u \<in> set (groupUris ps True). \<exists>x. loadFrom u fetch True = Inr (Inr x))
             \<and> loadGroups ps options = (Inr (), loaded_state ps fetch))"
proof (cases "array_map (\<lambda>u. loadFrom u fetch True) (groupUris ps True)")
  case (Inl e)
  from array_map_Inl [OF Inl] Inl assms show ?thesis
    by (simp add: loadGroups_def)
next
  case (Inr acts)
  from array_map_Inr [OF Inr]
  have acts: "acts = map (\<lambda>u. projr (loadFrom u fetch True)) (groupUris ps True)"
    and ret: "\<forall>u \<in> set (groupUris ps True). \<exists>v. loadFrom u fetch True = Inr v"
    by simp_all
  have res: "\<exists>x. loadFrom u fetch True = Inr (Inr x)" if "u \<in> set (groupUris ps True)" for u
  proof -
    from ret that obtain v where v: "loadFrom u fetch True = Inr v" by blast
    from loadFrom_never_rejects [OF v] v show ?thesis by auto
  qed
  have "\<forall>p \<in> set acts. \<exists>x. p = Inr x"
    unfolding acts using res by fastforce
  from promise_all_resolved [OF this]
  have "promise_all acts
          = Inr (map (\<lambda>u. projr (projr (loadFrom u fetch True))) (groupUris ps True))"
    by (simp add: acts comp_def)
  with Inr assms res show ?thesis
    by (simp add: loadGroups_def loaded_state_def)
qed

lemma loadGroups_loaded:
  assumes "fetchGraph options = Some fetch" "co_rdf options \<or> rdf ps"
    and "\<forall>u \<in> set (groupUris ps True). \<exists>p. fetch u = Thenable p"
  shows "loadGroups ps options = (Inr (), loaded_state ps fetch)"
proof -
  have "loadFrom u fetch True \<noteq> Inl e" if "u \<in> set (groupUris ps True)" for u e
  proof -
    from assms(3) that obtain p where "fetch u = Thenable p" by blast
    with loadFrom_total [of fetch u p True] show ?thesis by auto
  qed
  with loadGroups_cases [OF assms(1,2)] show ?thesis by blast
qed

lemma loadGroups_state:
  "snd (loadGroups ps options) = ps \<or>
     (\<exists>fetch. fetchGraph options = Some fetch
        \<and> (\<forall>u \<in> set (groupUris ps True). \<exists>x. loadFrom u fetch True = Inr (Inr x))
        \<and> loadGroups ps options = (Inr (), loaded_state ps fetch))"
proof (cases "fetchGraph options")
  case None
  then show ?thesis by (simp add: loadGroups_def)
next
  case (Some fetch)
  show ?thesis
  proof (cases "co_rdf options \<or> rdf ps")
    case True
    from loadGroups_cases [OF Some True] Some show ?thesis by auto
  next
    case False
    with Some show ?thesis by (simp add: loadGroups_def)
  qed
qed

lemma store_group_fold_lookup:
  "map_of (foldl store_group c xs) g = Some l \<Longrightarrow>
     map_of c g = Some l \<or> (Some l \<in> set xs \<and> undef_str (uri l) = g)"
proof (induction xs arbitrary: c)
  case Nil
  then show ?case by simp
next
  case (Cons x xs)
  from Cons.IH [OF Cons.prems [simplified]]
  show ?case
    by (cases x) (auto simp: store_group_def map_of_obj_set split: if_splits)
qed

lemma store_group_fold_keys:
  "set (obj_keys c) \<subseteq> set (obj_keys (foldl store_group c xs))"
proof (induction xs arbitrary: c)
  case Nil
  show ?case by simp
next
  case (Cons x xs)
  have "set (obj_keys c) \<subseteq> set (obj_keys (store_group c x))"
    by (cases x) (auto simp: store_group_def obj_keys_obj_set)
  with Cons [of "store_group c x"] show ?case by auto
qed

lemma store_group_fold_kept:
  "\<forall>l' \<in> set xs. \<forall>l. l' = Some l \<longrightarrow> undef_str (uri l) \<noteq> g \<Longrightarrow>
     map_of (foldl store_group c xs) g = map_of c g"
proof (induction xs arbitrary: c)
  case Nil
  show ?case by simp
next
  case (Cons x xs)
  have "map_of (store_group c x) g = map_of c g"
    using Cons.prems by (cases x) (auto simp: store_group_def map_of_obj_set)
  with Cons.IH [of "store_group c x"] Cons.prems show ?case by simp
qed

lemma loaded_cache_origin:
  assumes "map_of (groups (loaded_state ps fetch)) g = Some l"
    and "\<forall>u \<in> set (groupUris ps True). \<exists>x. loadFrom u fetch True = Inr (Inr x)"
  shows "map_of (groups ps) g = Some l
       \<or> (g \<in> set (groupUris ps True) \<and> loadFrom g fetch True = Inr (Inr (Some l)))"
proof -
  from assms(1) have "map_of (foldl store_group (groups ps)
      (map (\<lambda>u. projr (projr (loadFrom u fetch True))) (groupUris ps True))) g = Some l"
    by (simp add: loaded_state_def)
  from store_group_fold_lookup [OF this]
  consider "map_of (groups ps) g = Some l"
    | u where "u \<in> set (groupUris ps True)" "projr (projr (loadFrom u fetch True)) = Some l"
        "undef_str (uri l) = g"
    by auto
  then show ?thesis
  proof cases
    case 1
    then show ?thesis by simp
  next
    case 2
    from assms(2) 2(1,2) have lf: "loadFrom u fetch True = Inr (Inr (Some l))"
      by auto
    from loadFrom_uri [OF lf] 2(3) have "u = g" by (simp add: undef_str_def)
    with 2(1) lf show ?thesis by simp
  qed
qed

text \<open>A load that came back \<open>null\<close> neither adds a listing for its group nor removes
  the one that is cached.\<close>

lemma failed_load_cache_unchanged:
  assumes "loadFrom g fetch True = Inr (Inr None)"
    and "\<forall>u \<in> set (groupUris ps True). \<exists>x. loadFrom u fetch True = Inr (Inr x)"
  shows "map_of (groups (loaded_state ps fetch)) g = map_of (groups ps) g"
proof -
  have "undef_str (uri l) \<noteq> g"
    if "u \<in> set (groupUris ps True)" "projr (projr (loadFrom u fetch True)) = Some l" for u l
  proof
    assume g: "undef_str (uri l) = g"
    from assms(2) that have lf: "loadFrom u fetch True = Inr (Inr (Some l))" by auto
    from loadFrom_uri [OF lf] g have "u = g" by (simp add: undef_str_def)
    with lf assms(1) show False by simp
  qed
  then have "\<forall>l' \<in> set (map (\<lambda>u. projr (projr (loadFrom u fetch True))) (groupUris ps True)).
               \<forall>l. l' = Some l \<longrightarrow> undef_str (uri l) \<noteq> g"
    by auto
  from store_group_fold_kept [OF this] show ?thesis by (simp add: loaded_state_def)
qed


text \<open>The public-read example of the unit tests: the container grants Read to everyone,
  inherited.\<close>

definition ps_docs_public :: PermissionSet where
  "ps_docs_public =
     (new_PermissionSet (Some docs) (Some (docs @ ''.acl'')) True no_options)
       \<lparr> heap := [addMode (new_Permission (Some docs) True \<lparr>group := Some EVERYONE\<rparr>) [READ]],
         authorizations := [(EVERYONE @ ''-'' @ docs @ ''-default'', 0)],
         authsBy_agents := [(EVERYONE, [(DEFAULT, [(docs, 0)])])],
         authsBy_groups := [(EVERYONE, [(DEFAULT, [(docs, 0)])])] \<rparr>"

lemma ps_docs_public_built:
  "addGroupPermission (new_PermissionSet (Some docs) (Some (docs @ ''.acl'')) True no_options)
      EVERYONE (One READ) = Inr ps_docs_public"
  by (simp add: ps_docs_public_def docs_def eval_defs)

theorem public_access_ignores_origin_witness:
  "allowsPublic ps_docs_public READ (Some file1) = Inr True
   \<and> file1 \<noteq> [] \<and> applicable_spec (authsBy_groups ps_docs_public) EVERYONE file1 (Some 0)
   \<and> allowsMode (heap ps_docs_public ! 0) READ
   \<and> checkAccess (ps_docs_public\<lparr>strictOrigin := True, origin := Some ''https://example.com'',
          host := Some ''https://alice.example.com''\<rparr>) file1 bob READ no_fetch
       = (Inr True, ps_docs_public\<lparr>strictOrigin := True, origin := Some ''https://example.com'',
          host := Some ''https://alice.example.com''\<rparr>)"
proof -
  have f: "findAuthByAgent ps_docs_public EVERYONE (Some file1) GROUP_INDEX = Inr (Some 0)"
    by (simp add: ps_docs_public_def new_PermissionSet_def docs_def file1_def check_defs)
  have i: "ps_index ps_docs_public GROUP_INDEX = authsBy_groups ps_docs_public"
    by (simp add: ps_index_def)
  have sp: "applicable_spec (authsBy_groups ps_docs_public) EVERYONE file1 (Some 0)"
    using findAuthByAgent_meets_spec [of ps_docs_public EVERYONE file1 GROUP_INDEX] f i by simp
  have m: "allowsMode (heap ps_docs_public ! 0) READ"
    by (simp add: ps_docs_public_def new_PermissionSet_def new_Permission_def addMode_modes
        set_add_def check_defs)
  have n: "file1 \<noteq> []" by (simp add: file1_def)
  from public_access_ignores_origin [where ps = ps_docs_public and r = file1 and a = 0
      and mode = READ and s = True and og = "Some ''https://example.com''"
      and h = "Some ''https://alice.example.com''" and agentId = bob and options = no_fetch]
    sp m n
  show ?thesis by simp
qed

section \<open>The shape of a \<open>checkAccess\<close> call\<close>

lemma checkAccess_snd:
  "snd (checkAccess ps r a m opts) = ps \<or> snd (checkAccess ps r a m opts) = snd (loadGroups ps opts)"
  by (simp add: checkAccess_def split: sum.split bool.split prod.split)

lemma allowsPublic_defined: "r \<noteq> [] \<Longrightarrow> \<exists>b. allowsPublic ps m (Some r) = Inr b"
  using findAuthByAgent_defined [of ps EVERYONE r GROUP_INDEX]
  by (auto simp: allowsPublic_def findPublicAuth_def split: option.split)

lemma checkAccessForAgent_defined: "\<exists>b. checkAccessForAgent ps (Some r) a m = Inr b"
  using findAuthByAgent_defined [of ps a r AGENT_INDEX]
  by (auto simp: checkAccessForAgent_def split: option.split)

lemma group_loop_result:
  "group_loop ps (Some r) m res gs =
     Inr (res \<or> (\<exists>g \<in> set gs. checkAccessForAgent ps (Some r) g m = Inr True))"
proof (induction gs arbitrary: res)
  case Nil
  show ?case by simp
next
  case (Cons g gs)
  from checkAccessForAgent_defined [of ps r g m] obtain b
    where b: "checkAccessForAgent ps (Some r) g m = Inr b" ..
  show ?case by (cases b) (auto simp: b Cons)
qed

lemma checkAccess_char:
  assumes "fetchGraph opts = Some fetch" "co_rdf opts \<or> rdf ps" "r \<noteq> []"
    and "\<forall>u \<in> set (groupUris ps True). \<exists>p. fetch u = Thenable p"
  shows "checkAccess ps r a m opts =
     (if allowsPublic ps m (Some r) = Inr True \<or> checkAccessForAgent ps (Some r) a m = Inr True
      then (Inr True, ps)
      else if hasGroups ps
      then (Inr (\<exists>g \<in> set (groupsForMember (loaded_state ps fetch) a).
                   checkAccessForAgent (loaded_state ps fetch) (Some r) g m = Inr True),
            loaded_state ps fetch)
      else (Inr False, ps))"
proof -
  from allowsPublic_defined [OF assms(3), of ps m] obtain bp
    where bp: "allowsPublic ps m (Some r) = Inr bp" ..
  from checkAccessForAgent_defined [of ps r a m] obtain ba
    where ba: "checkAccessForAgent ps (Some r) a m = Inr ba" ..
  have lg: "loadGroups ps opts = (Inr (), loaded_state ps fetch)"
    using assms(1,2,4) by (rule loadGroups_loaded)
  show ?thesis
    by (cases bp; cases ba)
       (simp_all add: checkAccess_def bp ba lg checkGroupAccess_def group_loop_result)
qed

lemma groupsForMember_cached:
  "g \<in> set (groupsForMember ps a) \<Longrightarrow> \<exists>l. map_of (groups ps) g = Some l \<and> hasMember l a"
  by (auto simp: groupsForMember_def split: option.splits)

lemma not_cached_not_member:
  "map_of (groups ps) g = None \<Longrightarrow> g \<notin> set (groupsForMember ps a)"
  using groupsForMember_cached [of g ps a] by auto

lemma promised_loads_return:
  assumes "\<forall>u \<in> set us. \<exists>p. fetch u = Thenable p"
  shows "\<forall>u \<in> set us. \<exists>x. loadFrom u fetch True = Inr (Inr x)"
proof
  fix u assume "u \<in> set us"
  with assms obtain p where "fetch u = Thenable p" by blast
  with loadFrom_total [of fetch u p True]
  show "\<exists>x. loadFrom u fetch True = Inr (Inr x)" by simp
qed

lemma failed_load_null:
  assumes "(\<exists>e. fetch g = Thenable (Inl e)) \<or> fetch g = Thenable (Inr None)"
  shows "loadFrom g fetch True = Inr (Inr None)"
  using assms
proof
  assume "\<exists>e. fetch g = Thenable (Inl e)"
  then obtain e where "fetch g = Thenable (Inl e)" ..
  then show ?thesis by (rule loadFrom_rejected)
next
  assume "fetch g = Thenable (Inr None)"
  then show ?thesis by (rule loadFrom_no_graph)
qed

text \<open>
  A failed load of a group that has no listing in the cache. Let a fetcher and an RDF
  library be supplied, the queried URL be non-empty, and the fetcher return a promise
  for every group URI of the index. If the promise for the group \<open>g\<close> is rejected, or
  resolves to no graph, then \<open>loadFrom\<close> resolves to \<open>null\<close>; \<open>checkAccess\<close> resolves to
  a boolean; and if \<open>g\<close> had no listing in the cache, it has none afterwards, the agent
  is not among its members, and the call grants access exactly when the public check,
  the agent's own Permission, or (the index having groups) another group of which the
  agent is a member grants it.
\<close>

lemma failed_load_uncached_denies:
  assumes "fetchGraph opts = Some fetch" and "co_rdf opts \<or> rdf ps" and "r \<noteq> []"
    and "\<forall>u \<in> set (groupUris ps True). \<exists>p. fetch u = Thenable p"
    and "(\<exists>e. fetch g = Thenable (Inl e)) \<or> fetch g = Thenable (Inr None)"
    and "map_of (groups ps) g = None"
  shows "loadFrom g fetch True = Inr (Inr None)
    \<and> (\<exists>b ps'. checkAccess ps r agentId m opts = (Inr b, ps')
         \<and> map_of (groups ps') g = None \<and> g \<notin> set (groupsForMember ps' agentId)
         \<and> (b \<longrightarrow> allowsPublic ps m (Some r) = Inr True
                  \<or> checkAccessForAgent ps (Some r) agentId m = Inr True
                  \<or> (\<exists>g' \<in> set (groupsForMember ps' agentId). g' \<noteq> g
                        \<and> checkAccessForAgent ps' (Some r) g' m = Inr True))
         \<and> (allowsPublic ps m (Some r) = Inr True
              \<or> checkAccessForAgent ps (Some r) agentId m = Inr True
              \<or> (hasGroups ps \<and> (\<exists>g' \<in> set (groupsForMember ps' agentId).
                     checkAccessForAgent ps' (Some r) g' m = Inr True)) \<longrightarrow> b))"
proof
  show lf: "loadFrom g fetch True = Inr (Inr None)"
    using assms(5) by (rule failed_load_null)
  define E where "E = (allowsPublic ps m (Some r) = Inr True
                     \<or> checkAccessForAgent ps (Some r) agentId m = Inr True)"
  define L where "L = loaded_state ps fetch"
  define G where "G ps' = (\<exists>g' \<in> set (groupsForMember ps' agentId).
                     checkAccessForAgent ps' (Some r) g' m = Inr True)" for ps'
  define G' where "G' ps' = (\<exists>g' \<in> set (groupsForMember ps' agentId). g' \<noteq> g
                        \<and> checkAccessForAgent ps' (Some r) g' m = Inr True)" for ps'
  define Q where "Q b ps' =
     (map_of (groups ps') g = None \<and> g \<notin> set (groupsForMember ps' agentId)
        \<and> (b \<longrightarrow> E \<or> G' ps') \<and> (E \<or> (hasGroups ps \<and> G ps') \<longrightarrow> b))" for b ps'
  note ch = checkAccess_char [OF assms(1-4), of agentId m, folded E_def L_def]
  have nL: "map_of (groups L) g = None"
    unfolding L_def
    using failed_load_cache_unchanged [OF lf promised_loads_return [OF assms(4)]] assms(6)
    by simp
  have ngL: "g \<notin> set (groupsForMember L agentId)"
    using nL by (rule not_cached_not_member)
  have GL: "G' L" if "G L"
  proof -
    from that obtain g' where g': "g' \<in> set (groupsForMember L agentId)"
        "checkAccessForAgent L (Some r) g' m = Inr True"
      unfolding G_def by blast
    with ngL have "g' \<noteq> g" by blast
    with g' show ?thesis unfolding G'_def by blast
  qed
  have "\<exists>b ps'. checkAccess ps r agentId m opts = (Inr b, ps') \<and> Q b ps'"
  proof (cases E)
    case True
    then have "checkAccess ps r agentId m opts = (Inr True, ps)" using ch by simp
    moreover have "Q True ps"
      unfolding Q_def using True assms(6) not_cached_not_member [of ps g agentId] by simp
    ultimately show ?thesis by blast
  next
    case False
    show ?thesis
    proof (cases "hasGroups ps")
      case h: False
      then have "checkAccess ps r agentId m opts = (Inr False, ps)" using ch False by simp
      moreover have "Q False ps"
        unfolding Q_def using False h assms(6) not_cached_not_member [of ps g agentId] by simp
      ultimately show ?thesis by blast
    next
      case h: True
      have c: "checkAccess ps r agentId m opts = (Inr (G L), L)"
        using ch False h by (simp add: G_def)
      have "Q (G L) L"
        unfolding Q_def using nL ngL GL False by blast
      with c show ?thesis by blast
    qed
  qed
  then show "\<exists>b ps'. checkAccess ps r agentId m opts = (Inr b, ps')
         \<and> map_of (groups ps') g = None \<and> g \<notin> set (groupsForMember ps' agentId)
         \<and> (b \<longrightarrow> allowsPublic ps m (Some r) = Inr True
                  \<or> checkAccessForAgent ps (Some r) agentId m = Inr True
                  \<or> (\<exists>g' \<in> set (groupsForMember ps' agentId). g' \<noteq> g
                        \<and> checkAccessForAgent ps' (Some r) g' m = Inr True))
         \<and> (allowsPublic ps m (Some r) = Inr True
              \<or> checkAccessForAgent ps (Some r) agentId m = Inr True
              \<or> (hasGroups ps \<and> (\<exists>g' \<in> set (groupsForMember ps' agentId).
                     checkAccessForAgent ps' (Some r) g' m = Inr True)) \<longrightarrow> b)"
    unfolding Q_def E_def G_def G'_def disj_assoc .
qed

text \<open>A fetcher that raises instead of returning a promise: \<open>fetchGraph(uri, options)\<close>
  is evaluated outside the promise chain of \<open>loadFrom\<close>, so the exception leaves
  \<open>loadFrom\<close>, \<open>loadGroups\<close> and \<open>checkAccess\<close>, and the set is unchanged.\<close>

lemma throwing_fetcher_raises:
  assumes "fetchGraph opts = Some fetch" and "co_rdf opts \<or> rdf ps"
    and "allowsPublic ps m (Some r) = Inr False"
    and "checkAccessForAgent ps (Some r) agentId m = Inr False"
    and "groupUris ps True = g # gs" and "fetch g = Throws e"
  shows "loadFrom g fetch True = Inl e"
    and "loadGroups ps opts = (Inl e, ps)"
    and "checkAccess ps r agentId m opts = (Inl e, ps)"
proof -
  show lf: "loadFrom g fetch True = Inl e"
    using assms(6) by (rule loadFrom_raises)
  show lg: "loadGroups ps opts = (Inl e, ps)"
    using assms(1,2,5) lf by (simp add: loadGroups_def)
  show "checkAccess ps r agentId m opts = (Inl e, ps)"
    using assms(3,4,5) lg by (simp add: checkAccess_def hasGroups_def)
qed

lemma checkAccess_touches_cache_only:
  assumes "checkAccess ps r agentId m opts = (res, ps')"
  shows "ps' = ps\<lparr>groups := groups ps'\<rparr>
     \<and> set (obj_keys (groups ps)) \<subseteq> set (obj_keys (groups ps'))
     \<and> (\<forall>g l. map_of (groups ps') g = Some l \<longrightarrow>
           map_of (groups ps) g = Some l
           \<or> (\<exists>fetch. fetchGraph opts = Some fetch \<and> g \<in> set (groupUris ps True)
                 \<and> loadFrom g fetch True = Inr (Inr (Some l))))"
proof -
  from assms have s: "ps' = snd (checkAccess ps r agentId m opts)" by simp
  from checkAccess_snd [of ps r agentId m opts] loadGroups_state [of ps opts]
  consider "ps' = ps"
    | fetch where "fetchGraph opts = Some fetch" "ps' = loaded_state ps fetch"
        "\<forall>u \<in> set (groupUris ps True). \<exists>x. loadFrom u fetch True = Inr (Inr x)"
    unfolding s by auto
  then show ?thesis
  proof cases
    case 1
    then show ?thesis by simp
  next
    case 2
    have a: "ps' = ps\<lparr>groups := groups ps'\<rparr>" using 2(2) by (simp add: loaded_state_def)
    have b: "set (obj_keys (groups ps)) \<subseteq> set (obj_keys (groups ps'))"
      using 2(2) store_group_fold_keys by (simp add: loaded_state_def)
    have c: "map_of (groups ps) g = Some l
           \<or> (\<exists>fetch. fetchGraph opts = Some fetch \<and> g \<in> set (groupUris ps True)
                 \<and> loadFrom g fetch True = Inr (Inr (Some l)))"
      if "map_of (groups ps') g = Some l" for g l
    proof -
      from that 2(2) have "map_of (groups (loaded_state ps fetch)) g = Some l" by simp
      from loaded_cache_origin [OF this 2(3)] 2(1) show ?thesis by blast
    qed
    from a b c show ?thesis by blast
  qed
qed

section \<open>The group example: a Write grant for a group on \<open>file2\<close>\<close>

definition file2 :: string where "file2 = ''https://alice.example.com/docs/file2.ttl''"
definition accounting :: string where "accounting = ''https://alice.example.com/work-groups#Accounting''"
definition carol :: string where "carol = ''https://carol.example.com/#me''"

definition rdf_options :: ps_options where
  "rdf_options = no_options \<lparr> opt_rdf := True \<rparr>"

definition ps_file2 :: PermissionSet where
  "ps_file2 =
     (new_PermissionSet (Some file2) (Some (file2 @ ''.acl'')) False rdf_options)
       \<lparr> heap := [addMode (new_Permission (Some file2) False \<lparr>group := Some accounting\<rparr>) [WRITE]],
         authorizations := [(accounting @ ''-'' @ file2 @ ''-accessTo'', 0)],
         authsBy_agents := [(accounting, [(ACCESS_TO, [(file2, 0)])])],
         authsBy_groups := [(accounting, [(ACCESS_TO, [(file2, 0)])])] \<rparr>"

lemma ps_file2_built:
  "addGroupPermission (new_PermissionSet (Some file2) (Some (file2 @ ''.acl'')) False rdf_options)
      accounting (One WRITE) = Inr ps_file2"
  by (simp add: ps_file2_def file2_def accounting_def rdf_options_def eval_defs)

text \<open>Three fetchers: one that resolves to the listing document, which names Bob as
  a member; one whose promise is rejected; one that raises when it is called.\<close>

definition fetch_listing :: "string \<Rightarrow> fetched" where
  "fetch_listing u = Thenable (Inr (Some [(accounting, VCARD_hasMember, bob)]))"

definition fetch_unreachable :: "string \<Rightarrow> fetched" where
  "fetch_unreachable u = Thenable (Inl (Error ''404 Not Found''))"

definition fetch_throwing :: "string \<Rightarrow> fetched" where
  "fetch_throwing u = Throws (Error ''network down'')"

definition with_fetch :: "(string \<Rightarrow> fetched) \<Rightarrow> check_options" where
  "with_fetch f = \<lparr> fetchGraph = Some f, co_rdf = False \<rparr>"

lemmas group_defs =
  loadGroups_def loadFrom_def promise_then_def promise_catch_def initFromGraph_def
  new_GroupListing_def addMember_def hasMember_def graph_match_def graph_anyValue_def
  VCARD_hasMember_def VCARD_hasUID_def store_group_def checkGroupAccess_def
  groupsForMember_def with_fetch_def fetch_listing_def fetch_unreachable_def set_add_def
  array_map.simps promise_all.simps

definition accounting_listing :: GroupListing where
  "accounting_listing = \<lparr> uri = Some accounting, uid = None, members = [bob], listing = None,
      gl_rdf = True \<rparr>"

lemma load_ok: "loadFrom accounting fetch_listing True = Inr (Inr (Some accounting_listing))"
  by (simp add: accounting_listing_def accounting_def bob_def group_defs truthy_def undef_str_def Let_def)

lemma load_fail: "loadFrom accounting fetch_unreachable True = Inr (Inr None)"
  by (simp add: group_defs)

lemma groups_file2: "groupUris ps_file2 True = [accounting]" "hasGroups ps_file2"
  by (simp_all add: ps_file2_def hasGroups_def groupUris_def obj_keys_def accounting_def EVERYONE_def)

lemma ps_file2_fields: "groups ps_file2 = []" "rdf ps_file2"
  by (simp_all add: ps_file2_def new_PermissionSet_def rdf_options_def no_options_def)

lemma ps_file2_no_cache: "ps_file2\<lparr>groups := []\<rparr> = ps_file2"
  by (simp add: ps_file2_def new_PermissionSet_def)

lemma file2_loaded: "loadGroups ps_file2 (with_fetch fetch_listing)
   = (Inr (), ps_file2\<lparr>groups := [(accounting, accounting_listing)]\<rparr>)"
  by (simp add: loadGroups_def with_fetch_def groups_file2 ps_file2_fields load_ok
      store_group_def accounting_listing_def undef_str_def)

lemma file2_not_loaded: "loadGroups ps_file2 (with_fetch fetch_unreachable) = (Inr (), ps_file2)"
  by (simp add: loadGroups_def with_fetch_def groups_file2 ps_file2_fields load_fail
      store_group_def ps_file2_no_cache)

lemma file2_public: "allowsPublic ps_file2 m (Some file2) = Inr False"
  by (simp add: ps_file2_def new_PermissionSet_def file2_def accounting_def check_defs)

lemma file2_agent:
  "checkAccessForAgent ps_file2 (Some file2) bob m = Inr False"
  "checkAccessForAgent ps_file2 (Some file2) carol m = Inr False"
  by (simp_all add: ps_file2_def new_PermissionSet_def file2_def accounting_def bob_def carol_def check_defs)

lemma file2_group:
  "checkAccessForAgent (ps_file2\<lparr>groups := c\<rparr>) (Some file2) accounting APPEND = Inr True"
  by (simp add: ps_file2_def new_PermissionSet_def rdf_options_def no_options_def file2_def accounting_def
      new_Permission_def addMode_modes set_add_def check_defs)

lemma carol_not_bob: "carol \<noteq> bob"
  by (simp add: carol_def bob_def)

lemma file2_bob_granted:
  "checkAccess ps_file2 file2 bob APPEND (with_fetch fetch_listing)
     = (Inr True, ps_file2\<lparr>groups := [(accounting, accounting_listing)]\<rparr>)"
  by (simp add: checkAccess_def file2_public file2_agent groups_file2 file2_loaded
      checkGroupAccess_def groupsForMember_def obj_keys_def accounting_listing_def hasMember_def
      file2_group)

lemma file2_carol_denied:
  "checkAccess ps_file2 file2 carol APPEND (with_fetch fetch_listing)
     = (Inr False, ps_file2\<lparr>groups := [(accounting, accounting_listing)]\<rparr>)"
  by (simp add: checkAccess_def file2_public file2_agent groups_file2 file2_loaded
      checkGroupAccess_def groupsForMember_def obj_keys_def accounting_listing_def hasMember_def
      carol_not_bob)

lemma file2_bob_unreachable:
  "checkAccess ps_file2 file2 bob APPEND (with_fetch fetch_unreachable) = (Inr False, ps_file2)"
  by (simp add: checkAccess_def file2_public file2_agent groups_file2 file2_not_loaded
      checkGroupAccess_def groupsForMember_def obj_keys_def ps_file2_fields)

text \<open>
  Claim C10. Whatever a \<open>checkAccess\<close> call returns, the set it leaves differs from the
  set it found in the group-listing cache at most: the store of Permission objects,
  the authorizations collection and both indexes are the same. The cache keeps every
  key it had, and every listing in it afterwards either was there before or is the
  listing that \<open>loadFrom\<close> loaded successfully in this call for a group URI of the
  group index.
\<close>

theorem checkAccess_frame:
  assumes "checkAccess ps r agentId m opts = (res, ps')"
  shows "heap ps' = heap ps \<and> authorizations ps' = authorizations ps
     \<and> authsBy_agents ps' = authsBy_agents ps \<and> authsBy_groups ps' = authsBy_groups ps
     \<and> ps' = ps\<lparr>groups := groups ps'\<rparr>
     \<and> set (obj_keys (groups ps)) \<subseteq> set (obj_keys (groups ps'))
     \<and> (\<forall>g l. map_of (groups ps') g = Some l \<longrightarrow>
           map_of (groups ps) g = Some l
           \<or> (\<exists>fetch. fetchGraph opts = Some fetch \<and> g \<in> set (groupUris ps True)
                 \<and> loadFrom g fetch True = Inr (Inr (Some l))))"
proof -
  note t = checkAccess_touches_cache_only [OF assms]
  from t have e: "ps' = ps\<lparr>groups := groups ps'\<rparr>" by blast
  have "heap ps' = heap (ps\<lparr>groups := groups ps'\<rparr>)"
       "authorizations ps' = authorizations (ps\<lparr>groups := groups ps'\<rparr>)"
       "authsBy_agents ps' = authsBy_agents (ps\<lparr>groups := groups ps'\<rparr>)"
       "authsBy_groups ps' = authsBy_groups (ps\<lparr>groups := groups ps'\<rparr>)"
    using e by simp_all
  then have "heap ps' = heap ps" "authorizations ps' = authorizations ps"
       "authsBy_agents ps' = authsBy_agents ps" "authsBy_groups ps' = authsBy_groups ps"
    by simp_all
  with t show ?thesis by blast
qed

theorem checkAccess_frame_witness:
  "checkAccess ps_file2 file2 bob APPEND (with_fetch fetch_listing)
        = (Inr True, ps_file2\<lparr>groups := [(accounting, accounting_listing)]\<rparr>)
   \<and> heap (ps_file2\<lparr>groups := [(accounting, accounting_listing)]\<rparr>) = heap ps_file2
   \<and> authorizations (ps_file2\<lparr>groups := [(accounting, accounting_listing)]\<rparr>)
        = authorizations ps_file2
   \<and> authsBy_agents (ps_file2\<lparr>groups := [(accounting, accounting_listing)]\<rparr>)
        = authsBy_agents ps_file2
   \<and> authsBy_groups (ps_file2\<lparr>groups := [(accounting, accounting_listing)]\<rparr>)
        = authsBy_groups ps_file2
   \<and> groups ps_file2 = []
   \<and> loadFrom accounting fetch_listing True = Inr (Inr (Some accounting_listing))"
  using checkAccess_frame [OF file2_bob_granted] file2_bob_granted ps_file2_fields load_ok
  by simp

section \<open>Adding a Permission only extends the set\<close>

text \<open>\<open>mode_grows p p'\<close>: \<open>p'\<close> is \<open>p\<close> with possibly more access modes. \<open>extends ps ps'\<close>:
  the store of \<open>ps'\<close> holds the objects of \<open>ps\<close>, each with possibly more modes, the by-agent
  index of \<open>ps'\<close> has every entry of that of \<open>ps\<close>, and the origin context and
  \<open>aclUrlFor\<close> are the same. \<open>agents_in_range\<close>: the by-agent index refers to objects of the
  store only.\<close>

definition mode_grows :: "Permission \<Rightarrow> Permission \<Rightarrow> bool" where
  "mode_grows p p' =
     (accessType p' = accessType p \<and> agent p' = agent p \<and> group p' = group p
      \<and> inherited p' = inherited p \<and> mailTo p' = mailTo p
      \<and> originsAllowed p' = originsAllowed p \<and> resourceUrl p' = resourceUrl p
      \<and> virtual p' = virtual p
      \<and> set (accessModes p) \<subseteq> set (accessModes p'))"

definition extends :: "PermissionSet \<Rightarrow> PermissionSet \<Rightarrow> bool" where
  "extends ps ps' =
    (length (heap ps) \<le> length (heap ps')
     \<and> (\<forall>i < length (heap ps). mode_grows (heap ps ! i) (heap ps' ! i))
     \<and> (\<forall>w t u e. index_get (authsBy_agents ps) w t u = Some e
            \<longrightarrow> index_get (authsBy_agents ps') w t u = Some e)
     \<and> strictOrigin ps' = strictOrigin ps \<and> origin ps' = origin ps \<and> host ps' = host ps
     \<and> aclUrlFor ps' = aclUrlFor ps)"

definition agents_in_range :: "PermissionSet \<Rightarrow> bool" where
  "agents_in_range ps =
     (\<forall>w t u e. index_get (authsBy_agents ps) w t u = Some e \<longrightarrow> e < length (heap ps))"

lemma mode_grows_refl: "mode_grows p p"
  by (simp add: mode_grows_def)

lemma mode_grows_trans: "mode_grows p q \<Longrightarrow> mode_grows q r \<Longrightarrow> mode_grows p r"
  unfolding mode_grows_def by auto

lemma extends_refl: "extends ps ps"
  by (simp add: extends_def mode_grows_refl)

lemma extends_trans:
  assumes "extends ps ps1" "extends ps1 ps2"
  shows "extends ps ps2"
  unfolding extends_def
proof (intro conjI allI impI)
  show "length (heap ps) \<le> length (heap ps2)"
    using assms by (simp add: extends_def)
  fix i assume "i < length (heap ps)"
  with assms show "mode_grows (heap ps ! i) (heap ps2 ! i)"
    by (auto simp: extends_def intro: mode_grows_trans)
next
  fix w t u e assume "index_get (authsBy_agents ps) w t u = Some e"
  with assms show "index_get (authsBy_agents ps2) w t u = Some e"
    by (simp add: extends_def)
qed (use assms in \<open>simp_all add: extends_def\<close>)

lemma mergeWith_mode_grows: "mergeWith p q = Inr p' \<Longrightarrow> mode_grows p p'"
  by (drule mergeWith_result) (simp add: mode_grows_def set_fold_set_add)

lemma mergeWith_modes_sup:
  "mergeWith p q = Inr p' \<Longrightarrow> set (accessModes q) \<subseteq> set (accessModes p')"
  by (drule mergeWith_result) (simp add: set_fold_set_add)

lemma mergeWith_ref_heap:
  assumes "mergeWith_ref h b a = Inr h'"
  shows "length h' = length h" and "i < length h \<Longrightarrow> mode_grows (h ! i) (h' ! i)"
proof -
  from assms obtain p where p: "mergeWith (h ! b) (h ! a) = Inr p" and h': "h' = h[b := p]"
    by (auto simp: mergeWith_ref_def split: sum.splits)
  show "length h' = length h" by (simp add: h')
  show "mode_grows (h ! i) (h' ! i)" if "i < length h"
    using that mergeWith_mode_grows [OF p]
    by (cases "i = b") (simp_all add: h' mode_grows_refl)
qed

lemma mergeWith_ref_target:
  assumes "mergeWith_ref h b a = Inr h'" "b < length h"
  shows "set (accessModes (h ! a)) \<subseteq> set (accessModes (h' ! b))"
proof -
  from assms obtain p where p: "mergeWith (h ! b) (h ! a) = Inr p" and h': "h' = h[b := p]"
    by (auto simp: mergeWith_ref_def split: sum.splits)
  from mergeWith_modes_sup [OF p] assms(2) show ?thesis by (simp add: h')
qed

lemma heap_update_extends:
  assumes "length h' = length (heap ps)"
    "\<And>i. i < length (heap ps) \<Longrightarrow> mode_grows (heap ps ! i) (h' ! i)"
  shows "extends ps (ps\<lparr>heap := h'\<rparr>)"
  using assms by (simp add: extends_def)

lemma store_authorization_extends:
  assumes "store_authorization ps k a = Inr ps1"
  shows "extends ps ps1" "authsBy_agents ps1 = authsBy_agents ps"
    "length (heap ps1) = length (heap ps)"
proof -
  show "extends ps ps1"
  proof (cases "map_of (authorizations ps) k")
    case None
    with assms have "ps1 = ps\<lparr>authorizations := obj_set k a (authorizations ps)\<rparr>"
      by (simp add: store_authorization_def)
    then show ?thesis by (simp add: extends_def mode_grows_refl)
  next
    case (Some b)
    with assms obtain h' where h': "mergeWith_ref (heap ps) b a = Inr h'" "ps1 = ps\<lparr>heap := h'\<rparr>"
      by (auto simp: store_authorization_def split: sum.splits)
    show ?thesis
      unfolding h'(2) using mergeWith_ref_heap [OF h'(1)] by (intro heap_update_extends) simp_all
  qed
  show "authsBy_agents ps1 = authsBy_agents ps"
    using assms by (auto simp: store_authorization_def split: option.splits sum.splits)
  show "length (heap ps1) = length (heap ps)"
    using assms mergeWith_ref_heap(1)
    by (auto simp: store_authorization_def split: option.splits sum.splits)
qed

lemma map_of_obj_set_any: "map_of (obj_set k v ps) k' = (if k' = k then Some v else map_of ps k')"
  by (induction ps) auto

lemma index_get_index_put:
  "index_get (index_put idx w t u a) w' t' u' =
     (if w' = w \<and> t' = t \<and> u' = u then Some a else index_get idx w' t' u')"
  by (auto simp: index_get_def index_put_def map_of_obj_set_any Let_def split: option.splits)


lemma addToAgentIndex_cases:
  assumes "addToAgentIndex ps a = Inr ps'"
  obtains (fresh) "index_get (authsBy_agents ps) (null_str (webId (heap ps ! a)))
                      (accessType (heap ps ! a)) (undef_str (resourceUrl (heap ps ! a))) = None"
      "ps' = ps\<lparr>authsBy_agents := index_put (authsBy_agents ps) (null_str (webId (heap ps ! a)))
                      (accessType (heap ps ! a)) (undef_str (resourceUrl (heap ps ! a))) a\<rparr>"
  | (merge) e h' where
      "index_get (authsBy_agents ps) (null_str (webId (heap ps ! a)))
                      (accessType (heap ps ! a)) (undef_str (resourceUrl (heap ps ! a))) = Some e"
      "mergeWith_ref (heap ps) e a = Inr h'" "ps' = ps\<lparr>heap := h'\<rparr>"
  using assms by (auto simp: addToAgentIndex_def Let_def split: option.splits sum.splits)

lemma addToAgentIndex_extends:
  assumes "addToAgentIndex ps a = Inr ps'"
  shows "extends ps ps'"
  using assms
proof (cases rule: addToAgentIndex_cases)
  case fresh
  show ?thesis
    unfolding fresh(2) extends_def using fresh(1)
    by (auto simp: index_get_index_put mode_grows_refl)
next
  case (merge e h')
  show ?thesis
    unfolding merge(3) using mergeWith_ref_heap [OF merge(2)]
    by (intro heap_update_extends) simp_all
qed

lemma addToAgentIndex_entry:
  assumes "addToAgentIndex ps a = Inr ps'" "agents_in_range ps" "a < length (heap ps)"
  shows "\<exists>e. index_get (authsBy_agents ps') (null_str (webId (heap ps ! a)))
                 (accessType (heap ps ! a)) (undef_str (resourceUrl (heap ps ! a))) = Some e
             \<and> e < length (heap ps')
             \<and> set (accessModes (heap ps ! a)) \<subseteq> set (accessModes (heap ps' ! e))"
  using assms(1)
proof (cases rule: addToAgentIndex_cases)
  case fresh
  show ?thesis
    unfolding fresh(2) using assms(3) by (simp add: index_get_index_put)
next
  case (merge e h')
  from assms(2) merge(1) have e: "e < length (heap ps)" by (auto simp: agents_in_range_def)
  from mergeWith_ref_target [OF merge(2) e] mergeWith_ref_heap(1) [OF merge(2)] e merge(1)
  show ?thesis unfolding merge(3) by simp
qed

lemma addToAgentIndex_fresh:
  assumes "addToAgentIndex ps a = Inr ps'"
    and "index_get (authsBy_agents ps) (null_str (webId (heap ps ! a)))
           (accessType (heap ps ! a)) (undef_str (resourceUrl (heap ps ! a))) = None"
  shows "index_get (authsBy_agents ps') (null_str (webId (heap ps ! a)))
           (accessType (heap ps ! a)) (undef_str (resourceUrl (heap ps ! a))) = Some a"
  using assms(1)
proof (cases rule: addToAgentIndex_cases)
  case fresh
  show ?thesis unfolding fresh(2) by (simp add: index_get_index_put)
next
  case (merge e h')
  with assms(2) show ?thesis by simp
qed

lemma addToAgentIndex_other_type:
  assumes "addToAgentIndex ps a = Inr ps'" "t \<noteq> accessType (heap ps ! a)"
  shows "index_get (authsBy_agents ps') w t u = index_get (authsBy_agents ps) w t u"
  using assms(1)
proof (cases rule: addToAgentIndex_cases)
  case fresh
  show ?thesis unfolding fresh(2) using assms(2) by (simp add: index_get_index_put)
next
  case (merge e h')
  show ?thesis unfolding merge(3) by simp
qed

lemma addToAgentIndex_in_range:
  assumes "addToAgentIndex ps a = Inr ps'" "agents_in_range ps" "a < length (heap ps)"
  shows "agents_in_range ps'"
  using assms(1)
proof (cases rule: addToAgentIndex_cases)
  case fresh
  show ?thesis
    unfolding fresh(2) using assms(2,3)
    by (auto simp: agents_in_range_def index_get_index_put split: if_splits)
next
  case (merge e h')
  show ?thesis
    unfolding merge(3) using assms(2) mergeWith_ref_heap(1) [OF merge(2)]
    by (simp add: agents_in_range_def)
qed

lemma addToGroupIndex_cases:
  assumes "addToGroupIndex ps a = Inr ps'"
  obtains (fresh) idx where "ps' = ps\<lparr>authsBy_groups := idx\<rparr>"
  | (merge) e h' where "mergeWith_ref (heap ps) e a = Inr h'" "ps' = ps\<lparr>heap := h'\<rparr>"
  using assms by (auto simp: addToGroupIndex_def Let_def split: option.splits sum.splits)

lemma addToGroupIndex_extends:
  assumes "addToGroupIndex ps a = Inr ps'"
  shows "extends ps ps'" "authsBy_agents ps' = authsBy_agents ps"
    "length (heap ps') = length (heap ps)"
proof -
  show "extends ps ps'"
    using assms
  proof (cases rule: addToGroupIndex_cases)
    case (fresh idx)
    show ?thesis unfolding fresh by (simp add: extends_def mode_grows_refl)
  next
    case (merge e h')
    show ?thesis
      unfolding merge(2) using mergeWith_ref_heap [OF merge(1)]
      by (intro heap_update_extends) simp_all
  qed
  show "authsBy_agents ps' = authsBy_agents ps"
    using assms by (cases rule: addToGroupIndex_cases) simp_all
  show "length (heap ps') = length (heap ps)"
    using assms by (cases rule: addToGroupIndex_cases) (simp_all add: mergeWith_ref_heap(1))
qed

text \<open>The last step of \<open>addAuthorization\<close>.\<close>

definition group_step :: "PermissionSet \<Rightarrow> nat \<Rightarrow> error + PermissionSet" where
  "group_step ps a =
     (if isPublic (heap ps ! a) \<or> isGroup (heap ps ! a) then addToGroupIndex ps a else Inr ps)"

lemma group_step_extends:
  assumes "group_step ps a = Inr ps'"
  shows "extends ps ps'" "authsBy_agents ps' = authsBy_agents ps"
    "length (heap ps') = length (heap ps)"
  using assms addToGroupIndex_extends [of ps a ps']
  by (auto simp: group_step_def extends_refl split: if_splits)

lemma addAuthorization_virtual:
  assumes "virtual (heap ps ! a)" "addAuthorization ps a = Inr ps'"
  obtains h ps1 ps2 where "hashFragment (heap ps ! a) = Inr h"
    "store_authorization ps h a = Inr ps1" "addToAgentIndex ps1 a = Inr ps2"
    "group_step ps2 a = Inr ps'"
proof -
  from assms(2) obtain h where h: "hashFragment (heap ps ! a) = Inr h"
    by (auto simp: addAuthorization.simps split: sum.splits)
  from assms(2) h obtain ps1 where ps1: "store_authorization ps h a = Inr ps1"
    by (auto simp: addAuthorization.simps split: sum.splits)
  have v: "virtual (heap ps1 ! a)"
    using store_authorization_virtual [OF ps1, of a] assms(1) by simp
  from assms(2) h ps1 v obtain ps2 where ps2: "addToAgentIndex ps1 a = Inr ps2"
    by (auto simp: addAuthorization.simps split: sum.splits)
  from assms(2) h ps1 v ps2 have "group_step ps2 a = Inr ps'"
    by (simp add: addAuthorization.simps group_step_def)
  with h ps1 ps2 that show ?thesis by blast
qed

lemma addAuthorization_control:
  assumes "\<not> virtual (heap ps ! a)" "allowsControl (heap ps ! a)" "a < length (heap ps)"
    "addAuthorization ps a = Inr ps'"
  obtains h ps1 ps2 ps3 where "hashFragment (heap ps ! a) = Inr h"
    "store_authorization ps h a = Inr ps1"
    "addControlPermissionsFor ps1 a = Inr ps2"
    "addToAgentIndex ps2 a = Inr ps3"
    "group_step ps3 a = Inr ps'"
proof -
  from assms(4) obtain h where h: "hashFragment (heap ps ! a) = Inr h"
    by (auto simp: addAuthorization.simps split: sum.splits)
  from assms(4) h obtain ps1 where ps1: "store_authorization ps h a = Inr ps1"
    by (auto simp: addAuthorization.simps split: sum.splits)
  have v: "\<not> virtual (heap ps1 ! a)"
    using store_authorization_virtual [OF ps1, of a] assms(1) by simp
  have "mode_grows (heap ps ! a) (heap ps1 ! a)"
    using store_authorization_extends(1) [OF ps1] assms(3) by (simp add: extends_def)
  with assms(2) have c: "allowsControl (heap ps1 ! a)"
    by (auto simp: allowsControl_def mode_grows_def)
  from assms(4) h ps1 v c obtain ps2 where ps2: "addControlPermissionsFor ps1 a = Inr ps2"
    by (auto simp: addAuthorization.simps split: sum.splits)
  from assms(4) h ps1 v c ps2 obtain ps3 where ps3: "addToAgentIndex ps2 a = Inr ps3"
    by (auto simp: addAuthorization.simps split: sum.splits)
  from assms(4) h ps1 v c ps2 ps3 have "group_step ps3 a = Inr ps'"
    by (simp add: addAuthorization.simps group_step_def)
  with h ps1 ps2 ps3 that show ?thesis by blast
qed


lemma alloc_extends: "extends ps (ps\<lparr>heap := heap ps @ [p]\<rparr>)"
  by (simp add: extends_def nth_append mode_grows_refl)

lemma entry_extends:
  assumes "index_get (authsBy_agents ps) w t u = Some e" "e < length (heap ps)"
    "M \<subseteq> set (accessModes (heap ps ! e))" "extends ps ps'"
  shows "index_get (authsBy_agents ps') w t u = Some e \<and> e < length (heap ps')
           \<and> M \<subseteq> set (accessModes (heap ps' ! e))"
proof -
  from assms(4,2) have "mode_grows (heap ps ! e) (heap ps' ! e)" by (simp add: extends_def)
  with assms show ?thesis by (auto simp: extends_def mode_grows_def)
qed

lemma impliedAuth_fields:
  "webId (impliedAuth ps p) = webId p" "accessType (impliedAuth ps p) = accessType p"
  "resourceUrl (impliedAuth ps p) = Some (aclUrlFor ps (undef_str (resourceUrl p)))"
  "set ALL_MODES \<subseteq> set (accessModes (impliedAuth ps p))"
  by (simp_all add: impliedAuth_def clone_def addMode_modes webId_def set_fold_set_add)

lemma mode_grows_key:
  "mode_grows p p' \<Longrightarrow> webId p' = webId p \<and> accessType p' = accessType p
      \<and> resourceUrl p' = resourceUrl p \<and> virtual p' = virtual p"
  by (simp add: mode_grows_def webId_def)

lemma hashFragment_truthy: "hashFragment p = Inr h \<Longrightarrow> truthy (resourceUrl p)"
  by (simp add: hashFragment_def split: if_splits)

lemma implied_indexed:
  assumes wf: "agents_in_range ps" and a: "a < length (heap ps)"
    and add: "addAuthorization ps a = Inr ps'"
    and nv: "\<not> virtual (heap ps ! a)" and ctl: "allowsControl (heap ps ! a)"
  defines "w \<equiv> null_str (webId (heap ps ! a))"
    and "t \<equiv> accessType (heap ps ! a)"
    and "u \<equiv> aclUrlFor ps (undef_str (resourceUrl (heap ps ! a)))"
    and "n \<equiv> length (heap ps)"
  shows "\<exists>e. index_get (authsBy_agents ps') w t u = Some e \<and> e < length (heap ps')
            \<and> set ALL_MODES \<subseteq> set (accessModes (heap ps' ! e))"
    and "u \<noteq> []"
    and "extends ps ps'"
    and "n < length (heap ps') \<and> virtual (heap ps' ! n)
          \<and> webId (heap ps' ! n) = webId (heap ps ! a)
          \<and> accessType (heap ps' ! n) = t
          \<and> resourceUrl (heap ps' ! n) = Some u
          \<and> set ALL_MODES \<subseteq> set (accessModes (heap ps' ! n))"
    and "\<And>w' t' u'. t' \<noteq> t \<Longrightarrow>
            index_get (authsBy_agents ps') w' t' u' = index_get (authsBy_agents ps) w' t' u'"
    and "agents_in_range ps'"
    and "index_get (authsBy_agents ps) w t u = None \<Longrightarrow>
            index_get (authsBy_agents ps') w t u = Some n"
    and "originsAllowed (heap ps' ! n) = originsAllowed (heap ps ! a)"
proof -
  from nv ctl a add obtain h ps1 ps2 ps3 where
    h: "hashFragment (heap ps ! a) = Inr h"
    and s1: "store_authorization ps h a = Inr ps1"
    and s2: "addControlPermissionsFor ps1 a = Inr ps2"
    and s3: "addToAgentIndex ps2 a = Inr ps3"
    and s4: "group_step ps3 a = Inr ps'"
    by (rule addAuthorization_control)
  note e1 = store_authorization_extends [OF s1]
  define imp where "imp = impliedAuth ps1 (heap ps1 ! a)"
  define psA where "psA = ps1\<lparr>heap := heap ps1 @ [imp]\<rparr>"
  have n1: "length (heap ps1) = n" using e1(3) by (simp add: n_def)
  have addA: "addAuthorization psA n = Inr ps2"
    using s2 by (simp add: addControlPermissionsFor.simps psA_def imp_def n1)
  have hA: "heap psA ! n = imp" by (simp add: psA_def n1 [symmetric])
  have lenA: "length (heap psA) = Suc n" by (simp add: psA_def n1)
  have vA: "virtual (heap psA ! n)" by (simp add: hA imp_def impliedAuth_virtual)
  from vA addA obtain h' psB psC where
    h': "hashFragment (heap psA ! n) = Inr h'"
    and sB: "store_authorization psA h' n = Inr psB"
    and sC: "addToAgentIndex psB n = Inr psC"
    and sD: "group_step psC n = Inr ps2"
    by (rule addAuthorization_virtual)
  note eB = store_authorization_extends [OF sB]
  note eD = group_step_extends [OF sD]
  note e4 = group_step_extends [OF s4]
  have g1: "mode_grows (heap ps ! a) (heap ps1 ! a)"
    using e1(1) a by (simp add: extends_def)
  have acl1: "aclUrlFor ps1 = aclUrlFor ps" using e1(1) by (simp add: extends_def)
  have imp_key: "webId imp = webId (heap ps ! a)" "accessType imp = t"
    "resourceUrl imp = Some u" "set ALL_MODES \<subseteq> set (accessModes imp)"
    using mode_grows_key [OF g1]
    by (simp_all add: imp_def impliedAuth_fields acl1 t_def u_def)
  show "u \<noteq> []"
    using hashFragment_truthy [OF h'] by (simp add: hA imp_key truthy_def)
  have gB: "mode_grows imp (heap psB ! n)"
    using eB(1) lenA hA by (auto simp: extends_def)
  have keyB: "null_str (webId (heap psB ! n)) = w" "accessType (heap psB ! n) = t"
    "undef_str (resourceUrl (heap psB ! n)) = u"
    using mode_grows_key [OF gB] by (simp_all add: imp_key w_def undef_str_def)
  have modesB: "set ALL_MODES \<subseteq> set (accessModes (heap psB ! n))"
    using gB imp_key(4) by (auto simp: mode_grows_def)
  have agB: "authsBy_agents psB = authsBy_agents ps"
    using eB(2) e1(2) by (simp add: psA_def)
  have lenB: "length (heap psB) = Suc n" using eB(3) lenA by simp
  have wfB: "agents_in_range psB"
    using wf by (auto simp: agents_in_range_def agB lenB n_def less_Suc_eq)
  from addToAgentIndex_entry [OF sC wfB] lenB obtain e where
    e: "index_get (authsBy_agents psC) w t u = Some e" "e < length (heap psC)"
       "set ALL_MODES \<subseteq> set (accessModes (heap psC ! e))"
    using modesB by (auto simp: keyB)
  have xC3: "extends psC ps3"
    using extends_trans [OF eD(1) addToAgentIndex_extends [OF s3]] .
  have xC: "extends psC ps'"
    using extends_trans [OF xC3 e4(1)] .
  from entry_extends [OF e xC]
  show "\<exists>e. index_get (authsBy_agents ps') w t u = Some e \<and> e < length (heap ps')
            \<and> set ALL_MODES \<subseteq> set (accessModes (heap ps' ! e))" by blast
  have xA: "extends psA ps'"
    using extends_trans [OF extends_trans [OF eB(1) addToAgentIndex_extends [OF sC]] xC] .
  have x1A: "extends ps1 psA" unfolding psA_def by (rule alloc_extends)
  show x: "extends ps ps'"
    using extends_trans [OF extends_trans [OF e1(1) x1A] xA] .
  have gn: "mode_grows imp (heap ps' ! n)" and ln: "n < length (heap ps')"
    using xA lenA hA by (auto simp: extends_def)
  show "n < length (heap ps') \<and> virtual (heap ps' ! n)
          \<and> webId (heap ps' ! n) = webId (heap ps ! a)
          \<and> accessType (heap ps' ! n) = t
          \<and> resourceUrl (heap ps' ! n) = Some u
          \<and> set ALL_MODES \<subseteq> set (accessModes (heap ps' ! n))"
    using mode_grows_key [OF gn] gn ln imp_key vA hA by (auto simp: mode_grows_def)
  have x2: "extends ps ps2"
    using extends_trans [OF extends_trans [OF e1(1) x1A]
        extends_trans [OF extends_trans [OF eB(1) addToAgentIndex_extends [OF sC]] eD(1)]] .
  have g2: "mode_grows (heap ps ! a) (heap ps2 ! a)"
    using x2 a by (simp add: extends_def)
  have t2: "accessType (heap ps2 ! a) = t"
    using mode_grows_key [OF g2] by (simp add: t_def)
  show "index_get (authsBy_agents ps') w' t' u' = index_get (authsBy_agents ps) w' t' u'"
    if "t' \<noteq> t" for w' t' u'
  proof -
    have "index_get (authsBy_agents psC) w' t' u' = index_get (authsBy_agents psB) w' t' u'"
      using addToAgentIndex_other_type [OF sC, of t'] that keyB(2) by simp
    moreover have "index_get (authsBy_agents ps3) w' t' u' = index_get (authsBy_agents ps2) w' t' u'"
      using addToAgentIndex_other_type [OF s3, of t'] that t2 by simp
    ultimately show ?thesis by (simp add: e4(2) eD(2) agB)
  qed
  have wfC: "agents_in_range psC"
    using addToAgentIndex_in_range [OF sC wfB] lenB by simp
  have wf2: "agents_in_range ps2"
    using wfC by (simp add: agents_in_range_def eD(2) eD(3))
  have a2: "a < length (heap ps2)"
    using x2 a by (simp add: extends_def)
  have wf3: "agents_in_range ps3"
    using addToAgentIndex_in_range [OF s3 wf2 a2] .
  show "agents_in_range ps'"
    using wf3 by (simp add: agents_in_range_def e4(2) e4(3))
  show "index_get (authsBy_agents ps') w t u = Some n"
    if "index_get (authsBy_agents ps) w t u = None"
  proof -
    from that have "index_get (authsBy_agents psB) (null_str (webId (heap psB ! n)))
           (accessType (heap psB ! n)) (undef_str (resourceUrl (heap psB ! n))) = None"
      by (simp add: agB keyB)
    from addToAgentIndex_fresh [OF sC this]
    have "index_get (authsBy_agents psC) w t u = Some n" by (simp add: keyB)
    with xC show ?thesis by (simp add: extends_def)
  qed
  have "originsAllowed imp = originsAllowed (heap ps1 ! a)"
    by (simp add: imp_def impliedAuth_def clone_def addMode_modes)
  with gn g1 show "originsAllowed (heap ps' ! n) = originsAllowed (heap ps ! a)"
    by (simp add: mode_grows_def)
qed


lemma allowsMode_WRITE: "allowsMode p WRITE = allowsWrite p"
  by (simp add: allowsMode_def allowsWrite_def toUpperCase_def upper_char_def acl_lookup_def
      WRITE_def APPEND_def)

lemma findAuthByAgent_entry:
  assumes "index_get (authsBy_agents ps) w t u = Some e"
    and "t = DEFAULT \<longrightarrow> index_get (authsBy_agents ps) w ACCESS_TO u = None"
  shows "findAuthByAgent ps w (Some u) AGENT_INDEX = Inr (Some e)"
proof (cases t)
  case ACCESS_TO
  with assms(1) show ?thesis
    using findAuthByAgent_direct [of ps AGENT_INDEX w u e] by (simp add: ps_index_def)
next
  case DEFAULT
  from assms(1) obtain byType d where
    bt: "map_of (authsBy_agents ps) w = Some byType" and d: "map_of byType t = Some d"
    and m: "map_of d u = Some e"
    by (auto simp: index_get_def split: option.splits)
  from assms(2) DEFAULT have n: "index_get (ps_index ps AGENT_INDEX) w ACCESS_TO u = None"
    by (simp add: ps_index_def)
  from findAuthByAgent_default_exact [of ps AGENT_INDEX w byType d u e] bt d m n DEFAULT
  show ?thesis by (simp add: ps_index_def)
qed

lemma entry_grants_write:
  assumes "index_get (authsBy_agents ps) w t u = Some e"
    and "WRITE \<in> set (accessModes (heap ps ! e))"
    and "u \<noteq> []"
    and o: "checkOrigin ps (heap ps ! e)"
    and "t = DEFAULT \<longrightarrow> index_get (authsBy_agents ps) w ACCESS_TO u = None"
  shows "checkAccess ps u w WRITE opts = (Inr True, ps)"
proof -
  have f: "findAuthByAgent ps w (Some u) AGENT_INDEX = Inr (Some e)"
    using assms(1,5) by (rule findAuthByAgent_entry)
  have ag: "checkAccessForAgent ps (Some u) w WRITE = Inr True"
    using assms(2) o by (simp add: checkAccessForAgent_def f allowsMode_WRITE allowsWrite_def)
  from allowsPublic_defined [OF assms(3), of ps WRITE] obtain b
    where b: "allowsPublic ps WRITE (Some u) = Inr b" ..
  show ?thesis by (cases b) (simp_all add: checkAccess_def b ag)
qed

lemma companion_matched_ref:
  assumes wf: "agents_in_range ps" and a: "a < length (heap ps)"
    and add: "addAuthorization ps a = Inr ps'"
    and nv: "\<not> virtual (heap ps ! a)" and ctl: "allowsControl (heap ps ! a)"
    and ns: "accessType (heap ps ! a) = DEFAULT \<longrightarrow>
               (\<forall>e. index_get (authsBy_agents ps) (null_str (webId (heap ps ! a))) ACCESS_TO
                      (aclUrlFor ps (undef_str (resourceUrl (heap ps ! a)))) = Some e
                    \<longrightarrow> allowsWrite (heap ps ! e))"
  shows "\<exists>e. findAuthByAgent ps' (null_str (webId (heap ps ! a)))
                (Some (aclUrlFor ps (undef_str (resourceUrl (heap ps ! a))))) AGENT_INDEX
              = Inr (Some e)
          \<and> e < length (heap ps') \<and> allowsWrite (heap ps' ! e)
          \<and> (index_get (authsBy_agents ps) (null_str (webId (heap ps ! a))) ACCESS_TO
                 (aclUrlFor ps (undef_str (resourceUrl (heap ps ! a)))) = None
               \<and> index_get (authsBy_agents ps) (null_str (webId (heap ps ! a))) DEFAULT
                 (aclUrlFor ps (undef_str (resourceUrl (heap ps ! a)))) = None
               \<longrightarrow> e = length (heap ps))
          \<and> (checkOrigin ps' (heap ps' ! e) \<longrightarrow>
               checkAccess ps' (aclUrlFor ps (undef_str (resourceUrl (heap ps ! a))))
                 (null_str (webId (heap ps ! a))) WRITE opts = (Inr True, ps'))"
proof -
  define w where "w = null_str (webId (heap ps ! a))"
  define t where "t = accessType (heap ps ! a)"
  define u where "u = aclUrlFor ps (undef_str (resourceUrl (heap ps ! a)))"
  define n where "n = length (heap ps)"
  note i = implied_indexed [OF wf a add nv ctl, folded w_def t_def u_def n_def]
  from i(1) obtain e1 where e1: "index_get (authsBy_agents ps') w t u = Some e1"
    "e1 < length (heap ps')" "set ALL_MODES \<subseteq> set (accessModes (heap ps' ! e1))" by blast
  have wr1: "WRITE \<in> set (accessModes (heap ps' ! e1))"
    using e1(3) by (auto simp: ALL_MODES_def)
  have "\<exists>e t'. index_get (authsBy_agents ps') w t' u = Some e \<and> e < length (heap ps')
           \<and> WRITE \<in> set (accessModes (heap ps' ! e))
           \<and> (t' = DEFAULT \<longrightarrow> index_get (authsBy_agents ps') w ACCESS_TO u = None)
           \<and> (index_get (authsBy_agents ps) w ACCESS_TO u = None
                \<and> index_get (authsBy_agents ps) w DEFAULT u = None \<longrightarrow> e = n)"
  proof (cases "t = DEFAULT \<and> index_get (authsBy_agents ps) w ACCESS_TO u \<noteq> None")
    case True
    then obtain e0 where e0: "index_get (authsBy_agents ps) w ACCESS_TO u = Some e0" by auto
    from wf e0 have l0: "e0 < length (heap ps)" by (auto simp: agents_in_range_def)
    from ns True e0 have "allowsWrite (heap ps ! e0)"
      by (simp add: w_def t_def u_def)
    then have "{WRITE} \<subseteq> set (accessModes (heap ps ! e0))" by (simp add: allowsWrite_def)
    from entry_extends [OF e0 l0 this i(3)] e0 show ?thesis by auto
  next
    case False
    then have d: "t = DEFAULT \<longrightarrow> index_get (authsBy_agents ps') w ACCESS_TO u = None"
      using i(5) [of ACCESS_TO w u] by auto
    have "e1 = n" if "index_get (authsBy_agents ps) w ACCESS_TO u = None
                \<and> index_get (authsBy_agents ps) w DEFAULT u = None"
    proof -
      from that have "index_get (authsBy_agents ps) w t u = None" by (cases t) simp_all
      from i(7) [OF this] e1(1) show ?thesis by simp
    qed
    with e1(1,2) wr1 d show ?thesis by blast
  qed
  then obtain e t' where e: "index_get (authsBy_agents ps') w t' u = Some e"
      "e < length (heap ps')" "WRITE \<in> set (accessModes (heap ps' ! e))"
      "t' = DEFAULT \<longrightarrow> index_get (authsBy_agents ps') w ACCESS_TO u = None"
      "index_get (authsBy_agents ps) w ACCESS_TO u = None
         \<and> index_get (authsBy_agents ps) w DEFAULT u = None \<longrightarrow> e = n"
    by blast
  have f: "findAuthByAgent ps' w (Some u) AGENT_INDEX = Inr (Some e)"
    using e(1,4) by (rule findAuthByAgent_entry)
  have c: "checkAccess ps' u w WRITE opts = (Inr True, ps')" if "checkOrigin ps' (heap ps' ! e)"
    using e(1,3) i(2) that e(4) by (rule entry_grants_write)
  have "findAuthByAgent ps' w (Some u) AGENT_INDEX = Inr (Some e)
          \<and> e < length (heap ps') \<and> allowsWrite (heap ps' ! e)
          \<and> (index_get (authsBy_agents ps) w ACCESS_TO u = None
               \<and> index_get (authsBy_agents ps) w DEFAULT u = None \<longrightarrow> e = n)
          \<and> (checkOrigin ps' (heap ps' ! e) \<longrightarrow>
               checkAccess ps' u w WRITE opts = (Inr True, ps'))"
    using f e(2,3,5) c by (simp add: allowsWrite_def)
  then show ?thesis
    unfolding w_def u_def n_def by (rule exI)
qed

lemma add_new_control:
  assumes wf: "agents_in_range ps"
    and add: "add_new ps auth = Inr ps'"
    and nv: "\<not> virtual auth" and ctl: "allowsControl auth"
  shows "length (heap ps) + 1 < length (heap ps')
     \<and> mode_grows auth (heap ps' ! length (heap ps))
     \<and> virtual (heap ps' ! (length (heap ps) + 1))
     \<and> webId (heap ps' ! (length (heap ps) + 1)) = webId auth
     \<and> accessType (heap ps' ! (length (heap ps) + 1)) = accessType auth
     \<and> resourceUrl (heap ps' ! (length (heap ps) + 1))
          = Some (aclUrlFor ps (undef_str (resourceUrl auth)))
     \<and> set ALL_MODES \<subseteq> set (accessModes (heap ps' ! (length (heap ps) + 1)))
     \<and> agents_in_range ps'"
proof -
  let ?ps = "ps\<lparr>heap := heap ps @ [auth]\<rparr>"
  let ?a = "length (heap ps)"
  have wf': "agents_in_range ?ps"
    using wf by (auto simp: agents_in_range_def less_Suc_eq)
  have a: "?a < length (heap ?ps)" by simp
  have h: "heap ?ps ! ?a = auth" by simp
  have add': "addAuthorization ?ps ?a = Inr ps'" using add by (simp add: add_new_def)
  have nv': "\<not> virtual (heap ?ps ! ?a)" and ctl': "allowsControl (heap ?ps ! ?a)"
    using nv ctl by simp_all
  note i = implied_indexed [OF wf' a add' nv' ctl']
  have "mode_grows auth (heap ps' ! ?a)"
    using i(3) by (auto simp: extends_def)
  with i(4) i(6) show ?thesis by simp
qed

text \<open>The Control example of the specification: Alice is granted Control on \<open>file1\<close>.\<close>

definition ps_file1 :: PermissionSet where
  "ps_file1 = new_PermissionSet (Some file1) (Some (file1 @ ''.acl'')) False no_options"

definition strict_options :: ps_options where
  "strict_options = no_options \<lparr> opt_strictOrigin := True,
      opt_host := Some ''https://alice.example.com'',
      opt_origin := Some ''https://app.example.org'' \<rparr>"

definition ps_file1_strict :: PermissionSet where
  "ps_file1_strict = new_PermissionSet (Some file1) (Some (file1 @ ''.acl'')) False strict_options"

definition alice_control :: Permission where
  "alice_control = addMode (new_Permission (Some file1) False \<lparr>agent := Some alice\<rparr>) [CONTROL]"

definition with_alice_control :: "PermissionSet \<Rightarrow> PermissionSet" where
  "with_alice_control ps =
     ps \<lparr> heap := [alice_control,
                   alice_control \<lparr> accessModes := [CONTROL, READ, WRITE],
                     resourceUrl := Some (file1 @ ''.acl''), virtual := True \<rparr>],
          authorizations := [(alice @ ''-'' @ file1 @ ''-accessTo'', 0),
                             (alice @ ''-'' @ file1 @ ''.acl-accessTo'', 1)],
          authsBy_agents := [(alice, [(ACCESS_TO, [(file1 @ ''.acl'', 1), (file1, 0)])])] \<rparr>"

lemma alice_control_added:
  "addPermission ps_file1 alice (One CONTROL) None = Inr (with_alice_control ps_file1)"
  "add_new ps_file1 alice_control = Inr (with_alice_control ps_file1)"
  "addPermission ps_file1_strict alice (One CONTROL) None = Inr (with_alice_control ps_file1_strict)"
  by (simp_all add: ps_file1_def ps_file1_strict_def strict_options_def with_alice_control_def
      alice_control_def alice_def file1_def eval_defs Let_def suffix_to_prefix)

lemma agents_in_range_new: "agents_in_range (new_PermissionSet u acl c opts)"
  by (simp add: agents_in_range_def new_PermissionSet_def index_get_def)

text \<open>Under strict-origin enforcement the companion Permission does not help: it is a
  clone and carries the allowed origins of the original, and the agent check of
  \<open>checkAccess\<close> applies the origin check to it.\<close>

lemma control_strict_origin_denied:
  "addPermission ps_file1_strict alice (One CONTROL) None = Inr (with_alice_control ps_file1_strict)
   \<and> aclUrlFor ps_file1_strict file1 = file1 @ ''.acl''
   \<and> allowsControl (heap (with_alice_control ps_file1_strict) ! 0)
   \<and> \<not> virtual (heap (with_alice_control ps_file1_strict) ! 0)
   \<and> checkAccess (with_alice_control ps_file1_strict) (file1 @ ''.acl'') alice WRITE no_fetch
        = (Inr False, with_alice_control ps_file1_strict)"
proof -
  have a: "aclUrlFor ps_file1_strict file1 = file1 @ ''.acl''"
    by (simp add: ps_file1_strict_def new_PermissionSet_def strict_options_def no_options_def
        defaultAclUrlFor_def defaultIsAcl_def endsWith_def suffix_to_prefix
        DEFAULT_ACL_SUFFIX_def file1_def)
  have b: "allowsControl (heap (with_alice_control ps_file1_strict) ! 0)"
      "\<not> virtual (heap (with_alice_control ps_file1_strict) ! 0)"
    by (simp_all add: with_alice_control_def alice_control_def allowsControl_def addMode_modes
        set_add_def new_Permission_def)
  have c: "checkAccess (with_alice_control ps_file1_strict) (file1 @ ''.acl'') alice WRITE no_fetch
        = (Inr False, with_alice_control ps_file1_strict)"
    by (simp add: with_alice_control_def ps_file1_strict_def new_PermissionSet_def
        strict_options_def no_options_def alice_control_def new_Permission_def addMode_modes
        set_add_def alice_def file1_def check_defs)
  from alice_control_added(3) a b c show ?thesis by simp
qed

text \<open>The same grant with the request origin among its allowed origins: the set after
  \<open>addPermission(alice, CONTROL, 'https://app.example.org')\<close>.\<close>

definition alice_control_app :: Permission where
  "alice_control_app = addOrigin alice_control [''https://app.example.org'']"

definition with_alice_control_app :: "PermissionSet \<Rightarrow> PermissionSet" where
  "with_alice_control_app ps =
     ps \<lparr> heap := [alice_control_app,
                   alice_control_app \<lparr> accessModes := [CONTROL, READ, WRITE],
                     resourceUrl := Some (file1 @ ''.acl''), virtual := True \<rparr>],
          authorizations := [(alice @ ''-'' @ file1 @ ''-accessTo'', 0),
                             (alice @ ''-'' @ file1 @ ''.acl-accessTo'', 1)],
          authsBy_agents := [(alice, [(ACCESS_TO, [(file1 @ ''.acl'', 1), (file1, 0)])])] \<rparr>"

lemma alice_control_app_added:
  "addPermission ps_file1_strict alice (One CONTROL) (Some (One ''https://app.example.org''))
     = Inr (with_alice_control_app ps_file1_strict)"
  "add_new ps_file1_strict alice_control_app = Inr (with_alice_control_app ps_file1_strict)"
  by (simp_all add: ps_file1_strict_def strict_options_def with_alice_control_app_def
      alice_control_app_def alice_control_def alice_def file1_def eval_defs Let_def
      suffix_to_prefix addOrigin_def addOriginSingle_def arg_truthy_def)

text \<open>
  Claim C2, amended. Let a non-virtual Permission granting Control be added to a set
  whose by-agent index refers to stored objects only, and let the call succeed. Then
  the store holds, right after the added Permission, a companion that is virtual, has
  the same principal, access type and allowed origins, is scoped to
  \<open>aclUrlFor(resourceUrl)\<close> (by default the resource URL plus \<open>.acl\<close>, or the URL itself if
  it ends in \<open>.acl\<close>) and holds Read, Write and Control (so it allows Append too). No
  explicit grant targets the policy document: where the added Permission is Inherited,
  a Direct Permission indexed for the principal at the policy URL, if there is one,
  holds Write (as the companion of an earlier Direct Control grant does). Then
  \<open>findAuthByAgent\<close> matches, for the principal at the policy URL, a Permission that
  allows Write; it is the companion when nothing was indexed for the principal at the
  policy URL before; and whenever the origin check passes on the matched Permission,
  \<open>checkAccess(aclUrlFor(resourceUrl), principal, Write)\<close> resolves to true.
\<close>

theorem control_grants_acl_access:
  assumes "agents_in_range ps"
    and "add_new ps auth = Inr ps'"
    and "\<not> virtual auth" and "allowsControl auth"
    and "accessType auth = DEFAULT \<longrightarrow>
           (\<forall>e. index_get (authsBy_agents ps) (null_str (webId auth)) ACCESS_TO
                  (aclUrlFor ps (undef_str (resourceUrl auth))) = Some e
                \<longrightarrow> allowsWrite (heap ps ! e))"
  shows "length (heap ps) + 1 < length (heap ps')
     \<and> mode_grows auth (heap ps' ! length (heap ps))
     \<and> virtual (heap ps' ! (length (heap ps) + 1))
     \<and> webId (heap ps' ! (length (heap ps) + 1)) = webId auth
     \<and> accessType (heap ps' ! (length (heap ps) + 1)) = accessType auth
     \<and> resourceUrl (heap ps' ! (length (heap ps) + 1))
          = Some (aclUrlFor ps (undef_str (resourceUrl auth)))
     \<and> set ALL_MODES \<subseteq> set (accessModes (heap ps' ! (length (heap ps) + 1)))
     \<and> originsAllowed (heap ps' ! (length (heap ps) + 1)) = originsAllowed auth
     \<and> agents_in_range ps'
     \<and> (\<exists>e. findAuthByAgent ps' (null_str (webId auth))
                 (Some (aclUrlFor ps (undef_str (resourceUrl auth)))) AGENT_INDEX = Inr (Some e)
           \<and> e < length (heap ps') \<and> allowsWrite (heap ps' ! e)
           \<and> (index_get (authsBy_agents ps) (null_str (webId auth)) ACCESS_TO
                  (aclUrlFor ps (undef_str (resourceUrl auth))) = None
                \<and> index_get (authsBy_agents ps) (null_str (webId auth)) DEFAULT
                  (aclUrlFor ps (undef_str (resourceUrl auth))) = None
                \<longrightarrow> e = length (heap ps) + 1)
           \<and> (checkOrigin ps' (heap ps' ! e) \<longrightarrow>
                checkAccess ps' (aclUrlFor ps (undef_str (resourceUrl auth)))
                  (null_str (webId auth)) WRITE opts = (Inr True, ps')))"
proof -
  let ?ps = "ps\<lparr>heap := heap ps @ [auth]\<rparr>"
  let ?a = "length (heap ps)"
  have wf': "agents_in_range ?ps"
    using assms(1) by (auto simp: agents_in_range_def less_Suc_eq)
  have a: "?a < length (heap ?ps)" by simp
  have add': "addAuthorization ?ps ?a = Inr ps'" using assms(2) by (simp add: add_new_def)
  have nv': "\<not> virtual (heap ?ps ! ?a)" and ctl': "allowsControl (heap ?ps ! ?a)"
    using assms(3,4) by simp_all
  have ns': "accessType (heap ?ps ! ?a) = DEFAULT \<longrightarrow>
               (\<forall>e. index_get (authsBy_agents ?ps) (null_str (webId (heap ?ps ! ?a))) ACCESS_TO
                      (aclUrlFor ?ps (undef_str (resourceUrl (heap ?ps ! ?a)))) = Some e
                    \<longrightarrow> allowsWrite (heap ?ps ! e))"
  proof (intro impI allI)
    fix e
    assume t: "accessType (heap ?ps ! ?a) = DEFAULT"
      and e: "index_get (authsBy_agents ?ps) (null_str (webId (heap ?ps ! ?a))) ACCESS_TO
                      (aclUrlFor ?ps (undef_str (resourceUrl (heap ?ps ! ?a)))) = Some e"
    from e have e': "index_get (authsBy_agents ps) (null_str (webId auth)) ACCESS_TO
                  (aclUrlFor ps (undef_str (resourceUrl auth))) = Some e" by simp
    with assms(1) have "e < length (heap ps)" by (auto simp: agents_in_range_def)
    moreover from assms(5) t e' have "allowsWrite (heap ps ! e)" by simp
    ultimately show "allowsWrite (heap ?ps ! e)" by (simp add: nth_append)
  qed
  have og: "originsAllowed (heap ps' ! (length (heap ps) + 1)) = originsAllowed auth"
    using implied_indexed(8) [OF wf' a add' nv' ctl'] by simp
  from companion_matched_ref [OF wf' a add' nv' ctl' ns', of opts]
  have "\<exists>e. findAuthByAgent ps' (null_str (webId auth))
                 (Some (aclUrlFor ps (undef_str (resourceUrl auth)))) AGENT_INDEX = Inr (Some e)
           \<and> e < length (heap ps') \<and> allowsWrite (heap ps' ! e)
           \<and> (index_get (authsBy_agents ps) (null_str (webId auth)) ACCESS_TO
                  (aclUrlFor ps (undef_str (resourceUrl auth))) = None
                \<and> index_get (authsBy_agents ps) (null_str (webId auth)) DEFAULT
                  (aclUrlFor ps (undef_str (resourceUrl auth))) = None
                \<longrightarrow> e = length (heap ps) + 1)
           \<and> (checkOrigin ps' (heap ps' ! e) \<longrightarrow>
                checkAccess ps' (aclUrlFor ps (undef_str (resourceUrl auth)))
                  (null_str (webId auth)) WRITE opts = (Inr True, ps'))" by simp
  with add_new_control [OF assms(1-4)] og show ?thesis by simp
qed

theorem control_grants_acl_access_witness:
  "agents_in_range ps_file1_strict
   \<and> add_new ps_file1_strict alice_control_app = Inr (with_alice_control_app ps_file1_strict)
   \<and> addPermission ps_file1_strict alice (One CONTROL) (Some (One ''https://app.example.org''))
        = Inr (with_alice_control_app ps_file1_strict)
   \<and> \<not> virtual alice_control_app \<and> allowsControl alice_control_app
   \<and> accessType alice_control_app = ACCESS_TO
   \<and> null_str (webId alice_control_app) = alice
   \<and> aclUrlFor ps_file1_strict (undef_str (resourceUrl alice_control_app)) = file1 @ ''.acl''
   \<and> strictOrigin (with_alice_control_app ps_file1_strict)
   \<and> origin (with_alice_control_app ps_file1_strict) = Some ''https://app.example.org''
   \<and> host (with_alice_control_app ps_file1_strict) = Some ''https://alice.example.com''
   \<and> virtual (heap (with_alice_control_app ps_file1_strict) ! 1)
   \<and> findAuthByAgent (with_alice_control_app ps_file1_strict) alice (Some (file1 @ ''.acl''))
        AGENT_INDEX = Inr (Some 1)
   \<and> checkOrigin (with_alice_control_app ps_file1_strict)
        (heap (with_alice_control_app ps_file1_strict) ! 1)
   \<and> checkAccess (with_alice_control_app ps_file1_strict) (file1 @ ''.acl'') alice WRITE no_fetch
        = (Inr True, with_alice_control_app ps_file1_strict)"
proof -
  let ?ps' = "with_alice_control_app ps_file1_strict"
  have wf: "agents_in_range ps_file1_strict"
    unfolding ps_file1_strict_def by (rule agents_in_range_new)
  have p: "\<not> virtual alice_control_app" "allowsControl alice_control_app"
      "accessType alice_control_app = ACCESS_TO" "null_str (webId alice_control_app) = alice"
    by (simp_all add: alice_control_app_def alice_control_def new_Permission_def addMode_modes
        addOrigin_def addOriginSingle_def set_add_def
        allowsControl_def webId_def or_else_def truthy_def null_str_def alice_def)
  have u: "aclUrlFor ps_file1_strict (undef_str (resourceUrl alice_control_app)) = file1 @ ''.acl''"
    by (simp add: ps_file1_strict_def new_PermissionSet_def strict_options_def no_options_def
        alice_control_app_def alice_control_def addOrigin_def addOriginSingle_def
        new_Permission_def addMode_modes undef_str_def defaultAclUrlFor_def defaultIsAcl_def
        endsWith_def suffix_to_prefix DEFAULT_ACL_SUFFIX_def file1_def)
  have n: "accessType alice_control_app = DEFAULT \<longrightarrow>
           (\<forall>e. index_get (authsBy_agents ps_file1_strict) (null_str (webId alice_control_app))
                  ACCESS_TO (aclUrlFor ps_file1_strict (undef_str (resourceUrl alice_control_app)))
                  = Some e \<longrightarrow> allowsWrite (heap ps_file1_strict ! e))"
    using p(3) by simp
  have l: "length (heap ps_file1_strict) = 0"
    by (simp add: ps_file1_strict_def new_PermissionSet_def)
  have idx: "index_get (authsBy_agents ps_file1_strict) alice t (file1 @ ''.acl'') = None" for t
    by (simp add: ps_file1_strict_def new_PermissionSet_def index_get_def)
  have o: "strictOrigin ?ps'" "origin ?ps' = Some ''https://app.example.org''"
      "host ?ps' = Some ''https://alice.example.com''"
    by (simp_all add: with_alice_control_app_def ps_file1_strict_def new_PermissionSet_def
        strict_options_def no_options_def)
  have oa: "originsAllowed (heap ?ps' ! 1) = [''https://app.example.org'']"
    by (simp add: with_alice_control_app_def alice_control_app_def alice_control_def
        addOrigin_def addOriginSingle_def set_add_def new_Permission_def addMode_modes)
  have co: "checkOrigin ?ps' (heap ?ps' ! 1)"
    using oa by (simp add: checkOrigin_def o allowsOrigin_def undef_str_def)
  from control_grants_acl_access [OF wf alice_control_app_added(2) p(1,2) n, of no_fetch]
  obtain e where e: "findAuthByAgent ?ps' alice (Some (file1 @ ''.acl'')) AGENT_INDEX = Inr (Some e)"
      "e = 1"
      "checkOrigin ?ps' (heap ?ps' ! e) \<longrightarrow>
         checkAccess ?ps' (file1 @ ''.acl'') alice WRITE no_fetch = (Inr True, ?ps')"
    and v: "virtual (heap ?ps' ! 1)"
    using idx by (auto simp: l u p(4))
  from e co have "findAuthByAgent ?ps' alice (Some (file1 @ ''.acl'')) AGENT_INDEX = Inr (Some 1)"
    "checkAccess ?ps' (file1 @ ''.acl'') alice WRITE no_fetch = (Inr True, ?ps')"
    by simp_all
  with wf alice_control_app_added p u o v co show ?thesis by simp
qed

text \<open>
  Claim C2, as stated, fails under strict-origin enforcement. The set has no Permission
  at all, the request origin differs from the host, and Alice is granted Control on
  \<open>file1\<close> with no allowed origin. The companion is a clone and carries the (empty)
  allowed origins of the original; the agent check of \<open>checkAccess\<close> applies the origin
  check to it, and Alice is denied Write on \<open>file1.acl\<close>.
\<close>

theorem control_acl_access_counterexample:
  "authorizations ps_file1_strict = []
   \<and> addPermission ps_file1_strict alice (One CONTROL) None
        = Inr (with_alice_control ps_file1_strict)
   \<and> aclUrlFor ps_file1_strict file1 = file1 @ ''.acl''
   \<and> allowsControl (heap (with_alice_control ps_file1_strict) ! 0)
   \<and> \<not> virtual (heap (with_alice_control ps_file1_strict) ! 0)
   \<and> virtual (heap (with_alice_control ps_file1_strict) ! 1)
   \<and> allowsWrite (heap (with_alice_control ps_file1_strict) ! 1)
   \<and> checkAccess (with_alice_control ps_file1_strict) (file1 @ ''.acl'') alice WRITE no_fetch
        = (Inr False, with_alice_control ps_file1_strict)"
proof -
  have a: "authorizations ps_file1_strict = []"
    by (simp add: ps_file1_strict_def new_PermissionSet_def)
  have b: "virtual (heap (with_alice_control ps_file1_strict) ! 1)"
      "allowsWrite (heap (with_alice_control ps_file1_strict) ! 1)"
    by (simp_all add: with_alice_control_def allowsWrite_def WRITE_def CONTROL_def READ_def)
  from control_strict_origin_denied a b show ?thesis by simp
qed

section \<open>Removing a Permission\<close>

definition and_then ::
  "error + PermissionSet \<Rightarrow> (PermissionSet \<Rightarrow> error + PermissionSet) \<Rightarrow> error + PermissionSet" where
  "and_then r f = (case r of Inl e \<Rightarrow> Inl e | Inr ps \<Rightarrow> f ps)"

definition bob_read :: Permission where
  "bob_read = addMode (new_Permission (Some file1) False \<lparr>agent := Some bob\<rparr>) [READ]"

text \<open>The set after \<open>addPermission(bob, READ)\<close> and \<open>removePermission(bob, READ)\<close>, and
  the set after a further \<open>addPermission(bob, [READ, WRITE])\<close> and
  \<open>removePermission(bob, WRITE)\<close>.\<close>

definition ps_file1_removed :: PermissionSet where
  "ps_file1_removed =
     ps_file1 \<lparr> heap := [bob_read \<lparr>accessModes := []\<rparr>],
                authsBy_agents := [(bob, [(ACCESS_TO, [(file1, 0)])])] \<rparr>"

definition ps_file1_diverged :: PermissionSet where
  "ps_file1_diverged =
     ps_file1 \<lparr> heap := [bob_read \<lparr>accessModes := [READ, WRITE]\<rparr>, bob_read],
                authorizations := [(bob @ ''-'' @ file1 @ ''-accessTo'', 1)],
                authsBy_agents := [(bob, [(ACCESS_TO, [(file1, 0)])])] \<rparr>"

text \<open>
  Claim C7 against the code. \<open>removeAuthorization\<close> deletes the entry of the
  authorizations collection and nothing else. After \<open>addPermission(bob, READ)\<close> and
  \<open>removePermission(bob, READ)\<close> the collection is empty while the by-agent index still
  holds the emptied Permission. A later \<open>addPermission(bob, [READ, WRITE])\<close> stores a new
  object in the collection and merges its modes into the old object that the index
  holds, so collection and index now hold different objects; \<open>removePermission(bob,
  WRITE)\<close> then takes Write from the object of the collection only, and \<open>checkAccess\<close>,
  which reads the index, still grants Write.
\<close>

theorem index_not_cleared_on_removal:
  "and_then (addPermission ps_file1 bob (One READ) None)
      (\<lambda>ps. removePermission ps bob (One READ)) = Inr ps_file1_removed
   \<and> authorizations ps_file1_removed = []
   \<and> index_get (authsBy_agents ps_file1_removed) bob ACCESS_TO file1 = Some 0
   \<and> isEmpty (heap ps_file1_removed ! 0)
   \<and> and_then (addPermission ps_file1_removed bob (Many [READ, WRITE]) None)
      (\<lambda>ps. removePermission ps bob (One WRITE)) = Inr ps_file1_diverged
   \<and> permissionFor ps_file1_diverged bob None = Some 1
   \<and> index_get (authsBy_agents ps_file1_diverged) bob ACCESS_TO file1 = Some 0
   \<and> \<not> allowsWrite (heap ps_file1_diverged ! 1)
   \<and> allowsWrite (heap ps_file1_diverged ! 0)
   \<and> checkAccess ps_file1_diverged file1 bob WRITE no_fetch = (Inr True, ps_file1_diverged)"
proof -
  have a: "and_then (addPermission ps_file1 bob (One READ) None)
      (\<lambda>ps. removePermission ps bob (One READ)) = Inr ps_file1_removed"
    by (simp add: and_then_def ps_file1_removed_def ps_file1_def bob_read_def bob_def file1_def
        eval_defs)
  have b: "authorizations ps_file1_removed = []"
      "index_get (authsBy_agents ps_file1_removed) bob ACCESS_TO file1 = Some 0"
      "isEmpty (heap ps_file1_removed ! 0)"
    by (simp_all add: ps_file1_removed_def ps_file1_def new_PermissionSet_def index_get_def
        isEmpty_def)
  have c: "and_then (addPermission ps_file1_removed bob (Many [READ, WRITE]) None)
      (\<lambda>ps. removePermission ps bob (One WRITE)) = Inr ps_file1_diverged"
    by (simp add: and_then_def ps_file1_removed_def ps_file1_diverged_def ps_file1_def
        bob_read_def bob_def file1_def eval_defs Let_def)
  have d: "permissionFor ps_file1_diverged bob None = Some 1"
      "index_get (authsBy_agents ps_file1_diverged) bob ACCESS_TO file1 = Some 0"
      "\<not> allowsWrite (heap ps_file1_diverged ! 1)"
      "allowsWrite (heap ps_file1_diverged ! 0)"
    by (simp_all add: ps_file1_diverged_def ps_file1_def new_PermissionSet_def bob_read_def
        new_Permission_def addMode_modes set_add_def index_get_def permissionFor_def
        hashFragmentFor_def or_else_def truthy_def null_str_def undef_str_def
        access_type_str_def allowsWrite_def bob_def file1_def READ_def WRITE_def)
  have e: "checkAccess ps_file1_diverged file1 bob WRITE no_fetch = (Inr True, ps_file1_diverged)"
    by (simp add: ps_file1_diverged_def ps_file1_def new_PermissionSet_def no_options_def
        bob_read_def new_Permission_def addMode_modes set_add_def bob_def file1_def check_defs)
  from a b c d e show ?thesis by simp
qed

theorem index_not_cleared_on_removal_witness:
  "authorizations ps_file1_removed = []
   \<and> index_get (authsBy_agents ps_file1_removed) bob ACCESS_TO file1 = Some 0"
  using index_not_cleared_on_removal by simp

section \<open>The by-agent index is keyed by the fields of the Permissions it holds\<close>

text \<open>Every entry of the by-agent index points to a stored Permission whose principal,
  access type and resourceUrl are the keys of the entry. The empty set has the property
  and \<open>addPermission\<close>, \<open>addGroupPermission\<close> and \<open>removePermission\<close> keep it, so the
  keys that \<open>findAuthByAgent\<close> compares are the fields of the Permissions it returns, and
  the index of such a set refers to stored objects only.\<close>

definition agents_keyed :: "PermissionSet \<Rightarrow> bool" where
  "agents_keyed ps =
     (\<forall>w t u e. index_get (authsBy_agents ps) w t u = Some e \<longrightarrow>
        e < length (heap ps) \<and> null_str (webId (heap ps ! e)) = w
        \<and> accessType (heap ps ! e) = t \<and> undef_str (resourceUrl (heap ps ! e)) = u)"

lemma agents_keyed_in_range: "agents_keyed ps \<Longrightarrow> agents_in_range ps"
  by (simp add: agents_keyed_def agents_in_range_def)

lemma agents_keyed_new: "agents_keyed (new_PermissionSet u acl c opts)"
  by (simp add: agents_keyed_def new_PermissionSet_def index_get_def)

lemma agents_keyed_same_index:
  assumes "agents_keyed ps" "authsBy_agents ps' = authsBy_agents ps"
    "length (heap ps) \<le> length (heap ps')"
    "\<And>i. i < length (heap ps) \<Longrightarrow> mode_grows (heap ps ! i) (heap ps' ! i)"
  shows "agents_keyed ps'"
  unfolding agents_keyed_def
proof (intro allI impI)
  fix w t u e assume "index_get (authsBy_agents ps') w t u = Some e"
  with assms(1,2) have e: "e < length (heap ps)" "null_str (webId (heap ps ! e)) = w"
    "accessType (heap ps ! e) = t" "undef_str (resourceUrl (heap ps ! e)) = u"
    by (auto simp: agents_keyed_def)
  from mode_grows_key [OF assms(4) [OF e(1)]] e assms(3)
  show "e < length (heap ps') \<and> null_str (webId (heap ps' ! e)) = w
        \<and> accessType (heap ps' ! e) = t \<and> undef_str (resourceUrl (heap ps' ! e)) = u"
    by simp
qed

lemma agents_keyed_extends:
  assumes "agents_keyed ps" "authsBy_agents ps' = authsBy_agents ps" "extends ps ps'"
  shows "agents_keyed ps'"
  using assms(3) by (intro agents_keyed_same_index [OF assms(1,2)]) (simp_all add: extends_def)

lemma addToAgentIndex_keyed:
  assumes "addToAgentIndex ps a = Inr ps'" "agents_keyed ps" "a < length (heap ps)"
  shows "agents_keyed ps'"
  using assms(1)
proof (cases rule: addToAgentIndex_cases)
  case fresh
  show ?thesis
    unfolding fresh(2) using assms(2,3)
    by (auto simp: agents_keyed_def index_get_index_put split: if_splits)
next
  case (merge e h')
  have "authsBy_agents ps' = authsBy_agents ps" by (simp add: merge(3))
  from agents_keyed_extends [OF assms(2) this addToAgentIndex_extends [OF assms(1)]]
  show ?thesis .
qed

lemma addAuthorization_steps:
  assumes "addAuthorization ps a = Inr ps'"
  obtains h ps1 ps2 ps3 where "hashFragment (heap ps ! a) = Inr h"
    "store_authorization ps h a = Inr ps1"
    "(if \<not> virtual (heap ps1 ! a) \<and> allowsControl (heap ps1 ! a)
      then addControlPermissionsFor ps1 a else Inr ps1) = Inr ps2"
    "addToAgentIndex ps2 a = Inr ps3"
    "group_step ps3 a = Inr ps'"
proof -
  from assms obtain h where h: "hashFragment (heap ps ! a) = Inr h"
    by (auto simp: addAuthorization.simps split: sum.splits)
  from assms h obtain ps1 where ps1: "store_authorization ps h a = Inr ps1"
    by (auto simp: addAuthorization.simps split: sum.splits)
  from assms h ps1 obtain ps2 where ps2:
    "(if \<not> virtual (heap ps1 ! a) \<and> allowsControl (heap ps1 ! a)
      then addControlPermissionsFor ps1 a else Inr ps1) = Inr ps2"
    by (simp add: addAuthorization.simps split: sum.splits)
  from assms h ps1 ps2 obtain ps3 where ps3: "addToAgentIndex ps2 a = Inr ps3"
    by (simp add: addAuthorization.simps split: sum.splits)
  from assms h ps1 ps2 ps3 have "group_step ps3 a = Inr ps'"
    by (simp add: addAuthorization.simps group_step_def)
  with h ps1 ps2 ps3 that show ?thesis by blast
qed

lemma virtual_add_keyed:
  assumes "virtual (heap ps ! a)" "addAuthorization ps a = Inr ps'" "agents_keyed ps"
    "a < length (heap ps)"
  shows "agents_keyed ps' \<and> extends ps ps'"
proof -
  from assms(1,2) obtain h ps1 ps2 where
    s1: "store_authorization ps h a = Inr ps1" and s2: "addToAgentIndex ps1 a = Inr ps2"
    and s3: "group_step ps2 a = Inr ps'"
    by (rule addAuthorization_virtual)
  note e1 = store_authorization_extends [OF s1]
  note e3 = group_step_extends [OF s3]
  have k1: "agents_keyed ps1" using agents_keyed_extends [OF assms(3) e1(2) e1(1)] .
  have k2: "agents_keyed ps2" using addToAgentIndex_keyed [OF s2 k1] assms(4) e1(3) by simp
  have k3: "agents_keyed ps'" using agents_keyed_extends [OF k2 e3(2) e3(1)] .
  have "extends ps ps'"
    using extends_trans [OF extends_trans [OF e1(1) addToAgentIndex_extends [OF s2]] e3(1)] .
  with k3 show ?thesis by simp
qed

lemma addAuthorization_keyed:
  assumes "addAuthorization ps a = Inr ps'" "agents_keyed ps" "a < length (heap ps)"
  shows "agents_keyed ps' \<and> extends ps ps'"
proof -
  from assms(1) obtain h ps1 ps2 ps3 where
    s1: "store_authorization ps h a = Inr ps1"
    and s2: "(if \<not> virtual (heap ps1 ! a) \<and> allowsControl (heap ps1 ! a)
      then addControlPermissionsFor ps1 a else Inr ps1) = Inr ps2"
    and s3: "addToAgentIndex ps2 a = Inr ps3"
    and s4: "group_step ps3 a = Inr ps'"
    by (rule addAuthorization_steps)
  note e1 = store_authorization_extends [OF s1]
  note e4 = group_step_extends [OF s4]
  have k1: "agents_keyed ps1" using agents_keyed_extends [OF assms(2) e1(2) e1(1)] .
  have m: "agents_keyed ps2 \<and> extends ps1 ps2"
  proof (cases "\<not> virtual (heap ps1 ! a) \<and> allowsControl (heap ps1 ! a)")
    case False
    with s2 have "ps2 = ps1" by auto
    with k1 show ?thesis by (simp add: extends_refl)
  next
    case True
    let ?psA = "ps1\<lparr>heap := heap ps1 @ [impliedAuth ps1 (heap ps1 ! a)]\<rparr>"
    let ?n = "length (heap ps1)"
    from True s2 have add: "addAuthorization ?psA ?n = Inr ps2"
      by (simp add: addControlPermissionsFor.simps)
    have v: "virtual (heap ?psA ! ?n)" by (simp add: impliedAuth_virtual)
    have xa: "extends ps1 ?psA" by (rule alloc_extends)
    have kA: "agents_keyed ?psA"
      by (rule agents_keyed_extends [OF k1 _ xa]) simp
    from virtual_add_keyed [OF v add kA] have "agents_keyed ps2" "extends ?psA ps2" by simp_all
    with extends_trans [OF xa] show ?thesis by blast
  qed
  have x2: "extends ps ps2" using extends_trans [OF e1(1)] m by blast
  have a2: "a < length (heap ps2)" using x2 assms(3) by (simp add: extends_def)
  have k3: "agents_keyed ps3" using addToAgentIndex_keyed [OF s3 _ a2] m by blast
  have k4: "agents_keyed ps'" using agents_keyed_extends [OF k3 e4(2) e4(1)] .
  have "extends ps ps'"
    using extends_trans [OF extends_trans [OF x2 addToAgentIndex_extends [OF s3]] e4(1)] .
  with k4 show ?thesis by simp
qed

lemma add_new_keyed:
  assumes "add_new ps auth = Inr ps'" "agents_keyed ps"
  shows "agents_keyed ps'"
proof -
  let ?ps = "ps\<lparr>heap := heap ps @ [auth]\<rparr>"
  have k: "agents_keyed ?ps"
    by (rule agents_keyed_extends [OF assms(2) _ alloc_extends]) simp
  from addAuthorization_keyed [of ?ps "length (heap ps)" ps'] assms(1) k
  show ?thesis by (simp add: add_new_def)
qed

lemma addPermission_keyed:
  "addPermission ps w m og = Inr ps' \<Longrightarrow> agents_keyed ps \<Longrightarrow> agents_keyed ps'"
  by (auto simp: addPermission_def Let_def split: if_splits sum.splits option.splits
      intro: add_new_keyed)

lemma addGroupPermission_keyed:
  "addGroupPermission ps w m = Inr ps' \<Longrightarrow> agents_keyed ps \<Longrightarrow> agents_keyed ps'"
  by (auto simp: addGroupPermission_def split: if_splits sum.splits intro: add_new_keyed)

lemma removeModeSingle_grows: "mode_grows (removeModeSingle p m) p"
  by (auto simp: mode_grows_def removeModeSingle_def set_set_del)

lemma removeMode_key:
  "webId (removeMode p ms) = webId p \<and> accessType (removeMode p ms) = accessType p
     \<and> resourceUrl (removeMode p ms) = resourceUrl p"
  unfolding removeMode_def
  by (induction ms arbitrary: p) (simp_all add: removeModeSingle_def webId_def)

lemma removePermission_keyed:
  assumes "removePermission ps w m = Inr ps'" "agents_keyed ps"
  shows "agents_keyed ps'"
proof (cases "permissionFor ps w (ps_resourceUrl ps)")
  case None
  with assms show ?thesis by (simp add: removePermission_def)
next
  case (Some a)
  let ?ps1 = "ps\<lparr>heap := (heap ps)[a := removeMode (heap ps ! a) (to_list m)]\<rparr>"
  have k1: "agents_keyed ?ps1"
    unfolding agents_keyed_def
  proof (intro allI impI)
    fix w' t u e assume "index_get (authsBy_agents ?ps1) w' t u = Some e"
    with assms(2) have e: "e < length (heap ps)" "null_str (webId (heap ps ! e)) = w'"
      "accessType (heap ps ! e) = t" "undef_str (resourceUrl (heap ps ! e)) = u"
      by (auto simp: agents_keyed_def)
    show "e < length (heap ?ps1) \<and> null_str (webId (heap ?ps1 ! e)) = w'
        \<and> accessType (heap ?ps1 ! e) = t \<and> undef_str (resourceUrl (heap ?ps1 ! e)) = u"
      using e removeMode_key [of "heap ps ! a" "to_list m"]
      by (cases "e = a") simp_all
  qed
  from assms(1) Some have "ps' = ?ps1 \<or> removeAuthorization ?ps1 a = Inr ps'"
    by (auto simp: removePermission_def Let_def split: if_splits)
  then show ?thesis
  proof
    assume "ps' = ?ps1" with k1 show ?thesis by simp
  next
    assume "removeAuthorization ?ps1 a = Inr ps'"
    then obtain c where "ps' = ?ps1\<lparr>authorizations := c\<rparr>"
      by (auto simp: removeAuthorization_def split: sum.splits)
    with k1 show ?thesis by (simp add: agents_keyed_def)
  qed
qed

section \<open>A failed load and a cached listing\<close>

definition ps_file2_cached :: PermissionSet where
  "ps_file2_cached = ps_file2\<lparr>groups := [(accounting, accounting_listing)]\<rparr>"

lemma file2_cached_fields: "groups ps_file2_cached = [(accounting, accounting_listing)]"
    "rdf ps_file2_cached" "groupUris ps_file2_cached True = [accounting]" "hasGroups ps_file2_cached"
  using groups_file2 ps_file2_fields
  by (simp_all add: ps_file2_cached_def hasGroups_def groupUris_def)

lemma file2_cached_kept:
  "loadGroups ps_file2_cached (with_fetch fetch_unreachable) = (Inr (), ps_file2_cached)"
proof -
  have "ps_file2_cached\<lparr>groups := [(accounting, accounting_listing)]\<rparr> = ps_file2_cached"
    by (simp add: ps_file2_cached_def)
  then show ?thesis
    by (simp add: loadGroups_def with_fetch_def file2_cached_fields load_fail store_group_def)
qed

lemma findAuthByAgent_cache:
  "findAuthByAgent (ps\<lparr>groups := c\<rparr>) w u it = findAuthByAgent ps w u it"
  by (cases it) (simp_all add: findAuthByAgent_def ps_index_def)

lemma allowsPublic_cache: "allowsPublic (ps\<lparr>groups := c\<rparr>) m u = allowsPublic ps m u"
  by (simp add: allowsPublic_def findPublicAuth_def findAuthByAgent_cache
      split: sum.split option.split)

lemma checkAccessForAgent_cache:
  "checkAccessForAgent (ps\<lparr>groups := c\<rparr>) u a m = checkAccessForAgent ps u a m"
  by (simp add: checkAccessForAgent_def findAuthByAgent_cache checkOrigin_def
      split: sum.split option.split)

lemma file2_cached_checks:
  "allowsPublic ps_file2_cached m (Some file2) = Inr False"
  "checkAccessForAgent ps_file2_cached (Some file2) bob m = Inr False"
  by (simp_all add: ps_file2_cached_def allowsPublic_cache checkAccessForAgent_cache
      file2_public file2_agent)

lemma file2_bob_throwing:
  "checkAccess ps_file2 file2 bob APPEND (with_fetch fetch_throwing)
     = (Inl (Error ''network down''), ps_file2)"
proof -
  have f: "fetchGraph (with_fetch fetch_throwing) = Some fetch_throwing"
    by (simp add: with_fetch_def)
  have r: "co_rdf (with_fetch fetch_throwing) \<or> rdf ps_file2"
    by (simp add: ps_file2_fields)
  have t: "fetch_throwing accounting = Throws (Error ''network down'')"
    by (simp add: fetch_throwing_def)
  show ?thesis
    by (rule throwing_fetcher_raises(3) [OF f r file2_public file2_agent(1) groups_file2(1) t])
qed

text \<open>
  Claim C4 against the code. The comment in \<open>GroupListing.loadFrom\<close> says that returning
  \<open>null\<close> results in deny, and \<open>loadGroups\<close> reloads every group on every call. But
  \<open>loadGroups\<close> stores only the listings that were loaded and never removes one, so a
  failed load leaves the listing of an earlier call in the cache and in use. The set
  grants Append on \<open>file2\<close> to the Accounting group only: there is no public grant and
  Bob has no Permission of his own. A first \<open>checkAccess\<close> with a working fetcher caches
  the listing that names Bob. In a second call on the same set the fetcher's promise is
  rejected and \<open>loadFrom\<close> resolves to \<open>null\<close> for the only group; \<open>checkAccess\<close> still
  grants Bob access through that group. On the set without the cached listing the same
  call denies.
\<close>

theorem failed_load_keeps_stale_listing:
  "checkAccess ps_file2 file2 bob APPEND (with_fetch fetch_listing) = (Inr True, ps_file2_cached)
   \<and> fetch_unreachable accounting = Thenable (Inl (Error ''404 Not Found''))
   \<and> loadFrom accounting fetch_unreachable True = Inr (Inr None)
   \<and> groupUris ps_file2_cached True = [accounting]
   \<and> allowsPublic ps_file2_cached APPEND (Some file2) = Inr False
   \<and> checkAccessForAgent ps_file2_cached (Some file2) bob APPEND = Inr False
   \<and> map_of (groups ps_file2_cached) accounting = Some accounting_listing
   \<and> checkAccess ps_file2_cached file2 bob APPEND (with_fetch fetch_unreachable)
        = (Inr True, ps_file2_cached)
   \<and> checkAccess ps_file2 file2 bob APPEND (with_fetch fetch_unreachable)
        = (Inr False, ps_file2)"
proof -
  have a: "checkAccess ps_file2 file2 bob APPEND (with_fetch fetch_listing) = (Inr True, ps_file2_cached)"
    using file2_bob_granted by (simp add: ps_file2_cached_def)
  have b: "fetch_unreachable accounting = Thenable (Inl (Error ''404 Not Found''))"
    by (simp add: fetch_unreachable_def)
  have g: "checkAccessForAgent ps_file2_cached (Some file2) accounting APPEND = Inr True"
    unfolding ps_file2_cached_def by (rule file2_group)
  have m: "map_of (groups ps_file2_cached) accounting = Some accounting_listing"
    by (simp add: file2_cached_fields)
  have c: "checkAccess ps_file2_cached file2 bob APPEND (with_fetch fetch_unreachable)
        = (Inr True, ps_file2_cached)"
    by (simp add: checkAccess_def file2_cached_checks file2_cached_fields file2_cached_kept
        checkGroupAccess_def groupsForMember_def obj_keys_def accounting_listing_def hasMember_def g)
  from a b load_fail file2_cached_fields(3) file2_cached_checks [of APPEND] m c
    file2_bob_unreachable
  show ?thesis by simp
qed

theorem failed_load_keeps_stale_listing_witness:
  "loadFrom accounting fetch_unreachable True = Inr (Inr None)
   \<and> checkAccess ps_file2_cached file2 bob APPEND (with_fetch fetch_unreachable)
        = (Inr True, ps_file2_cached)"
  using failed_load_keeps_stale_listing by simp

section \<open>Control on a container and a Direct grant on its ACL document\<close>

text \<open>An Inherited Control grant on a container whose ACL document already has a Direct
  Read grant for the same agent.\<close>

definition ps_docs :: PermissionSet where
  "ps_docs = new_PermissionSet (Some docs) (Some (docs @ ''.acl'')) True no_options"

definition alice_acl_read :: Permission where
  "alice_acl_read =
     addMode (new_Permission (Some (docs @ ''.acl'')) False \<lparr>agent := Some alice\<rparr>) [READ]"

definition alice_docs_control :: Permission where
  "alice_docs_control =
     addMode (new_Permission (Some docs) True \<lparr>agent := Some alice\<rparr>) [CONTROL]"

definition ps_docs_shadowed :: PermissionSet where
  "ps_docs_shadowed =
     ps_docs \<lparr> heap := [alice_acl_read, alice_docs_control,
                   alice_docs_control \<lparr> accessModes := [CONTROL, READ, WRITE],
                     resourceUrl := Some (docs @ ''.acl''), virtual := True \<rparr>],
          authorizations := [(alice @ ''-'' @ docs @ ''.acl-accessTo'', 0),
                             (alice @ ''-'' @ docs @ ''-default'', 1),
                             (alice @ ''-'' @ docs @ ''.acl-default'', 2)],
          authsBy_agents := [(alice, [(ACCESS_TO, [(docs @ ''.acl'', 0)]),
                                      (DEFAULT, [(docs @ ''.acl'', 2), (docs, 1)])])] \<rparr>"

lemma ps_docs_shadowed_built:
  "and_then (add_new ps_docs alice_acl_read) (\<lambda>ps. add_new ps alice_docs_control)
     = Inr ps_docs_shadowed"
  by (simp add: and_then_def ps_docs_def ps_docs_shadowed_def alice_acl_read_def
      alice_docs_control_def alice_def docs_def eval_defs)

lemma ps_docs_shadowed_denied:
  "checkAccess ps_docs_shadowed (docs @ ''.acl'') alice WRITE no_fetch
     = (Inr False, ps_docs_shadowed)"
  by (simp add: ps_docs_shadowed_def ps_docs_def new_PermissionSet_def no_options_def
      alice_acl_read_def alice_docs_control_def new_Permission_def addMode_modes set_add_def
      alice_def docs_def check_defs)

text \<open>Where the agent already has a Direct Permission on the ACL document, an
  Inherited Control grant on the container adds an Inherited companion, which the
  Direct Permission precedes in the applicability rule: Alice holds Read on
  \<open>/docs/.acl\<close>, is granted Control on \<open>/docs/\<close>, and is still denied Write on
  \<open>/docs/.acl\<close>.\<close>

lemma direct_grant_precedes_companion:
  "and_then (add_new ps_docs alice_acl_read) (\<lambda>ps. add_new ps alice_docs_control)
        = Inr ps_docs_shadowed
   \<and> \<not> virtual alice_docs_control \<and> allowsControl alice_docs_control
   \<and> aclUrlFor ps_docs docs = docs @ ''.acl''
   \<and> checkAccess ps_docs_shadowed (docs @ ''.acl'') alice WRITE no_fetch
        = (Inr False, ps_docs_shadowed)"
proof -
  have a: "\<not> virtual alice_docs_control" "allowsControl alice_docs_control"
    by (simp_all add: alice_docs_control_def new_Permission_def addMode_modes set_add_def
        allowsControl_def)
  have b: "aclUrlFor ps_docs docs = docs @ ''.acl''"
    by (simp add: ps_docs_def new_PermissionSet_def no_options_def defaultAclUrlFor_def
        defaultIsAcl_def endsWith_def suffix_to_prefix DEFAULT_ACL_SUFFIX_def docs_def)
  from a b ps_docs_shadowed_built ps_docs_shadowed_denied
  show ?thesis by simp
qed

end
